theory Spec2Isabelle
  imports Main "HOL-Library.Word"
begin

section \<open>JavaScript strings\<close>

text \<open>
  A JavaScript string is a sequence of UTF-16 code units. All string operations of the
  converter (\<open>startsWith\<close>, \<open>endsWith\<close>, \<open>includes\<close>, \<open>slice\<close>, \<open>substring\<close>, the regular
  expressions without the \<open>u\<close> flag) work on code units, so a string is a list of 16-bit
  words. \<open>js\<close> writes an ASCII literal.
\<close>

type_synonym jschar = "16 word"
type_synonym jsstring = "jschar list"

definition ch :: "char \<Rightarrow> jschar" where
  "ch c = of_nat (of_char c)"

definition js :: "string \<Rightarrow> jsstring" where
  "js s = map ch s"

definition startsWith :: "jsstring \<Rightarrow> jsstring \<Rightarrow> bool" where
  "startsWith s p = (take (length p) s = p)"

definition endsWith :: "jsstring \<Rightarrow> jsstring \<Rightarrow> bool" where
  "endsWith s p = (length p \<le> length s \<and> drop (length s - length p) s = p)"

fun includes_str :: "jsstring \<Rightarrow> jsstring \<Rightarrow> bool" where
  "includes_str [] p = (p = [])"
| "includes_str (c # cs) p = (startsWith (c # cs) p \<or> includes_str cs p)"

text \<open>
  \<open>s.slice(b, e)\<close>: a negative argument counts from the end, both are clamped to the
  string, and an empty range gives the empty string.
\<close>

definition slice :: "jsstring \<Rightarrow> int \<Rightarrow> int \<Rightarrow> jsstring" where
  "slice s b e =
     (let n = int (length s);
          from = (if b < 0 then max (n + b) 0 else min b n);
          to = (if e < 0 then max (n + e) 0 else min e n)
      in take (nat (to - from)) (drop (nat from) s))"

text \<open>\<open>s.slice(b)\<close> with one argument runs to the end of the string.\<close>

definition sliceFrom :: "jsstring \<Rightarrow> int \<Rightarrow> jsstring" where
  "sliceFrom s b = slice s b (int (length s))"

text \<open>
  \<open>s.substring(a, b)\<close> for non-negative arguments: both are clamped to the string and
  swapped when the first is larger.
\<close>

definition substring :: "jsstring \<Rightarrow> nat \<Rightarrow> nat \<Rightarrow> jsstring" where
  "substring s a b =
     (let a' = min a (length s); b' = min b (length s)
      in take (max a' b' - min a' b') (drop (min a' b') s))"

section \<open>The regular expression of the inline parser\<close>

text \<open>
  \<open>processFormattedText\<close> scans its text with
  \<^verbatim>\<open>/(\[([^\]]+)\]\(([^)]+)\)|~~.*?~~|\*\*.*?\*\*|\*.*?\*|`.*?`)/g\<close>.
  The expression is kept as a syntax tree and run by a backtracking matcher. Every
  quantifier of the expression ranges over a single-character atom, so the tree has the
  lazy star, the greedy star and the greedy plus of an atom only. \<open>Eoi\<close> is the
  assertion \<open>$\<close> of an expression without the \<open>m\<close> flag: the end of the input.

  \<open>run r s k\<close> lists the outcomes of matching \<open>r\<close> at the start of \<open>s\<close> under the
  captures \<open>k\<close>, in the order in which backtracking reaches them: each outcome is the
  unconsumed rest of \<open>s\<close> with the captures set on the way. An alternation lists the
  outcomes of its left branch before those of its right branch, a lazy star the shortest
  repetition first, a greedy plus the longest first. The match that JavaScript reports is
  the first outcome of the list.
\<close>

datatype atom = Lit jschar | Dot | NotChar jschar

datatype rx =
    Empty
  | Atom atom
  | Seq rx rx
  | Alt rx rx
  | Group nat rx
  | LazyStar atom
  | GreedyStar atom
  | GreedyPlus atom
  | Eoi

text \<open>Without the \<open>s\<close> flag the dot matches every code unit but the four line terminators.\<close>

definition isLineTerminator :: "jschar \<Rightarrow> bool" where
  "isLineTerminator c = (c = 0x000A \<or> c = 0x000D \<or> c = 0x2028 \<or> c = 0x2029)"

fun atomMatches :: "atom \<Rightarrow> jschar \<Rightarrow> bool" where
  "atomMatches (Lit a) c = (c = a)"
| "atomMatches Dot c = (\<not> isLineTerminator c)"
| "atomMatches (NotChar a) c = (c \<noteq> a)"

fun lazyStar :: "atom \<Rightarrow> jsstring \<Rightarrow> jsstring list" where
  "lazyStar a [] = [[]]"
| "lazyStar a (c # cs) = (c # cs) # (if atomMatches a c then lazyStar a cs else [])"

fun greedyStar :: "atom \<Rightarrow> jsstring \<Rightarrow> jsstring list" where
  "greedyStar a [] = [[]]"
| "greedyStar a (c # cs) = (if atomMatches a c then greedyStar a cs else []) @ [c # cs]"

fun greedyPlus :: "atom \<Rightarrow> jsstring \<Rightarrow> jsstring list" where
  "greedyPlus a [] = []"
| "greedyPlus a (c # cs) = (if atomMatches a c then greedyStar a cs else [])"

type_synonym captures = "nat \<rightharpoonup> jsstring"

fun run :: "rx \<Rightarrow> jsstring \<Rightarrow> captures \<Rightarrow> (jsstring \<times> captures) list" where
  "run Empty s k = [(s, k)]"
| "run (Atom a) s k =
     (case s of [] \<Rightarrow> [] | c # cs \<Rightarrow> if atomMatches a c then [(cs, k)] else [])"
| "run (Seq r1 r2) s k = concat (map (\<lambda>(s1, k1). run r2 s1 k1) (run r1 s k))"
| "run (Alt r1 r2) s k = run r1 s k @ run r2 s k"
| "run (Group n r) s k =
     map (\<lambda>(s1, k1). (s1, k1(n \<mapsto> take (length s - length s1) s))) (run r s k)"
| "run (LazyStar a) s k = map (\<lambda>s1. (s1, k)) (lazyStar a s)"
| "run (GreedyStar a) s k = map (\<lambda>s1. (s1, k)) (greedyStar a s)"
| "run (GreedyPlus a) s k = map (\<lambda>s1. (s1, k)) (greedyPlus a s)"
| "run Eoi s k = (if s = [] then [(s, k)] else [])"

text \<open>A literal string is the sequence of its characters.\<close>

fun str :: "jsstring \<Rightarrow> rx" where
  "str [] = Empty"
| "str (c # cs) = Seq (Atom (Lit c)) (str cs)"

definition linkRx :: rx where
  "linkRx =
     Seq (Atom (Lit (ch CHR ''['')))
      (Seq (Group 2 (GreedyPlus (NotChar (ch CHR '']''))))
        (Seq (Atom (Lit (ch CHR '']'')))
          (Seq (Atom (Lit (ch CHR ''('')))
            (Seq (Group 3 (GreedyPlus (NotChar (ch CHR '')''))))
              (Atom (Lit (ch CHR '')'')))))))"

definition delimited :: "jsstring \<Rightarrow> rx" where
  "delimited d = Seq (str d) (Seq (LazyStar Dot) (str d))"

definition regex :: rx where
  "regex =
     Group 1
      (Alt linkRx
        (Alt (delimited (js ''~~''))
          (Alt (delimited (js ''**''))
            (Alt (delimited (js ''*''))
              (delimited (js ''`''))))))"

text \<open>
  The match at the start of a string: the first outcome, if there is one. It gives the
  rest after the match and the captures; capture 2 is the link text and capture 3 the
  link target, both unset when another alternative matched.
\<close>

definition matchAt :: "jsstring \<Rightarrow> (jsstring \<times> captures) option" where
  "matchAt s = (case run regex s Map.empty of [] \<Rightarrow> None | x # _ \<Rightarrow> Some x)"

text \<open>
  The match object of \<open>regex.exec\<close>: \<open>match.index\<close>, \<open>match[0]\<close>, \<open>match[2]\<close> and
  \<open>match[3]\<close> (a group that did not take part is \<open>undefined\<close>, here \<open>None\<close>).
\<close>

record regexMatch =
  index :: nat
  m0 :: jsstring
  m2 :: "jsstring option"
  m3 :: "jsstring option"

text \<open>
  \<open>regex.exec(text)\<close> of a global expression whose \<open>lastIndex\<close> is \<open>i\<close>: the search
  fails when \<open>i\<close> is beyond the end of the text, and otherwise tries the positions
  \<open>i, i + 1, \<dots>\<close> up to the end of the text. After a match the expression's
  \<open>lastIndex\<close> is the end of the match, \<open>index + length m0\<close>.
\<close>

function exec :: "jsstring \<Rightarrow> nat \<Rightarrow> regexMatch option" where
  "exec text i =
     (if length text < i then None
      else case matchAt (drop i text) of
             Some (rest, k) \<Rightarrow>
               Some \<lparr>index = i, m0 = take (length text - i - length rest) (drop i text),
                     m2 = k 2, m3 = k 3\<rparr>
           | None \<Rightarrow> exec text (Suc i))"
  by pat_completeness auto
termination
  by (relation "measure (\<lambda>(text, i). Suc (length text) - i)") auto

declare exec.simps [simp del]

subsection \<open>Every match consumes a non-empty prefix\<close>

lemma lazyStar_suffix: "s1 \<in> set (lazyStar a s) \<Longrightarrow> \<exists>p. s = p @ s1"
proof (induction s)
  case Nil then show ?case by simp
next
  case (Cons c cs)
  then show ?case
    by (auto split: if_splits)
qed

lemma greedyStar_suffix: "s1 \<in> set (greedyStar a s) \<Longrightarrow> \<exists>p. s = p @ s1"
proof (induction s)
  case Nil then show ?case by simp
next
  case (Cons c cs)
  then show ?case
    by (auto split: if_splits)
qed

lemma greedyPlus_suffix: "s1 \<in> set (greedyPlus a s) \<Longrightarrow> \<exists>p. s = p @ s1 \<and> p \<noteq> []"
  by (cases s) (auto split: if_splits dest!: greedyStar_suffix intro: exI[of _ "_ # _"])

lemma run_suffix: "(s1, k1) \<in> set (run r s k) \<Longrightarrow> \<exists>p. s = p @ s1"
proof (induction r arbitrary: s k s1 k1)
  case Empty then show ?case by simp
next
  case (Atom a)
  then show ?case by (cases s) (auto split: if_splits)
next
  case (Seq r1 r2)
  from Seq.prems obtain s2 k2 where a: "(s2, k2) \<in> set (run r1 s k)"
    and b: "(s1, k1) \<in> set (run r2 s2 k2)" by auto
  from Seq.IH(1)[OF a] Seq.IH(2)[OF b] show ?case by (metis append.assoc)
next
  case (Alt r1 r2)
  then show ?case by auto
next
  case (Group n r)
  then show ?case by auto
next
  case (LazyStar a)
  then show ?case by (auto dest: lazyStar_suffix)
next
  case (GreedyStar a)
  then show ?case by (auto dest: greedyStar_suffix)
next
  case (GreedyPlus a)
  then show ?case by (auto dest: greedyPlus_suffix)
next
  case Eoi
  then show ?case by (auto split: if_splits)
qed

lemma run_rest_le: "(s1, k1) \<in> set (run r s k) \<Longrightarrow> length s1 \<le> length s"
  by (auto dest!: run_suffix)

lemma concat_map_concat:
  "concat (map f (concat xss)) = concat (map (\<lambda>xs. concat (map f xs)) xss)"
  by (induction xss) auto

lemma run_Seq_assoc: "run (Seq (Seq a b) c) s k = run (Seq a (Seq b c)) s k"
  by (simp add: concat_map_concat split_def comp_def)

lemma run_Seq_Lit:
  "run (Seq (Atom (Lit c)) r) s k =
     (case s of [] \<Rightarrow> [] | x # xs \<Rightarrow> if x = c then run r xs k else [])"
  by (cases s) auto

lemma run_Seq_str:
  "run (Seq (str d) r) s k = (if startsWith s d then run r (drop (length d) s) k else [])"
proof (induction d arbitrary: s)
  case Nil
  then show ?case by (simp add: startsWith_def)
next
  case (Cons c d)
  have "run (Seq (str (c # d)) r) s k = run (Seq (Atom (Lit c)) (Seq (str d) r)) s k"
    by (simp only: str.simps run_Seq_assoc)
  also have "\<dots> = (case s of [] \<Rightarrow> [] | x # xs \<Rightarrow>
                 if x = c then run (Seq (str d) r) xs k else [])"
    by (rule run_Seq_Lit)
  also have "\<dots> = (if startsWith s (c # d) then run r (drop (length (c # d)) s) k else [])"
    using Cons.IH by (cases s) (auto simp: startsWith_def)
  finally show ?case .
qed

lemma run_str:
  "run (str d) s k = (if startsWith s d then [(drop (length d) s, k)] else [])"
proof (induction d arbitrary: s)
  case Nil
  then show ?case by (simp add: startsWith_def)
next
  case (Cons c d)
  have "run (str (c # d)) s k =
          (case s of [] \<Rightarrow> [] | x # xs \<Rightarrow> if x = c then run (str d) xs k else [])"
    by (simp only: str.simps run_Seq_Lit)
  then show ?case using Cons.IH by (cases s) (auto simp: startsWith_def)
qed

lemma run_delimited_shorter:
  assumes "(s1, k1) \<in> set (run (delimited (c # d)) s k)"
  shows "length s1 < length s"
proof -
  from assms have sw: "startsWith s (c # d)"
    and "(s1, k1) \<in> set (run (Seq (LazyStar Dot) (str (c # d))) (drop (length (c # d)) s) k)"
    unfolding delimited_def by (simp_all only: run_Seq_str split: if_splits) simp_all
  from run_rest_le[OF this(2)] have "length s1 \<le> length (drop (length (c # d)) s)" .
  moreover from sw have "s \<noteq> []" by (auto simp: startsWith_def)
  ultimately show ?thesis by (cases s) auto
qed

lemma run_linkRx_shorter:
  assumes "(s1, k1) \<in> set (run linkRx s k)"
  shows "length s1 < length s"
proof (cases s)
  case Nil
  with assms show ?thesis unfolding linkRx_def by (simp only: run_Seq_Lit) simp
next
  case (Cons x xs)
  with assms obtain r where "(s1, k1) \<in> set (run r xs k)"
    unfolding linkRx_def by (simp only: run_Seq_Lit list.case split: if_splits) auto
  from run_suffix[OF this] Cons show ?thesis by auto
qed

lemma run_regex_shorter: "(s1, k1) \<in> set (run regex s k) \<Longrightarrow> length s1 < length s"
  unfolding regex_def js_def
  by (auto dest: run_linkRx_shorter run_delimited_shorter)

lemma matchAt_Some:
  assumes "matchAt s = Some (rest, k)"
  shows "\<exists>p. s = p @ rest \<and> p \<noteq> []"
proof -
  from assms have mem: "(rest, k) \<in> set (run regex s Map.empty)"
    by (auto simp: matchAt_def split: list.splits)
  from run_suffix[OF mem] obtain p where "s = p @ rest" by blast
  moreover from run_regex_shorter[OF mem] have "length rest < length s" .
  ultimately show ?thesis by auto
qed

lemma exec_Some:
  "exec tx i = Some m \<Longrightarrow>
     i \<le> index m \<and> index m + length (m0 m) \<le> length tx \<and> m0 m \<noteq> []
     \<and> (\<exists>rest k. matchAt (drop (index m) tx) = Some (rest, k)
            \<and> drop (index m) tx = m0 m @ rest \<and> m2 m = k 2 \<and> m3 m = k 3)
     \<and> (\<forall>j. i \<le> j \<and> j < index m \<longrightarrow> matchAt (drop j tx) = None)"
proof (induction tx i rule: exec.induct)
  case (1 tx i)
  show ?case
  proof (cases "length tx < i")
    case True
    with "1.prems" show ?thesis by (simp add: exec.simps[of tx i])
  next
    case le: False
    show ?thesis
    proof (cases "matchAt (drop i tx)")
      case None
      with le "1.prems" have "exec tx (Suc i) = Some m"
        by (simp add: exec.simps[of tx i])
      from "1.IH"[OF le None this] have ih:
        "Suc i \<le> index m" "index m + length (m0 m) \<le> length tx" "m0 m \<noteq> []"
        "\<exists>rest k. matchAt (drop (index m) tx) = Some (rest, k)
            \<and> drop (index m) tx = m0 m @ rest \<and> m2 m = k 2 \<and> m3 m = k 3"
        "\<forall>j. Suc i \<le> j \<and> j < index m \<longrightarrow> matchAt (drop j tx) = None"
        by blast+
      have "matchAt (drop j tx) = None" if "i \<le> j" "j < index m" for j
        using that ih(5) None by (cases "j = i") auto
      with ih show ?thesis by auto
    next
      case (Some a)
      obtain rest k where a: "a = (rest, k)" by (cases a)
      from matchAt_Some[OF Some[unfolded a]] obtain p
        where p: "drop i tx = p @ rest" "p \<noteq> []" by blast
      have len: "length tx - i = length p + length rest"
        using p(1) by (metis length_append length_drop)
      from le Some a "1.prems"
      have m: "m = \<lparr>index = i, m0 = take (length tx - i - length rest) (drop i tx),
                     m2 = k 2, m3 = k 3\<rparr>"
        by (simp add: exec.simps[of tx i])
      have m0: "m0 m = p" using m p len by simp
      show ?thesis using m0 m p len le Some a by auto
    qed
  qed
qed

lemma exec_None:
  "exec tx i = None \<Longrightarrow> i \<le> j \<Longrightarrow> j \<le> length tx \<Longrightarrow> matchAt (drop j tx) = None"
proof (induction tx i rule: exec.induct)
  case (1 tx i)
  from "1.prems" have le: "\<not> length tx < i" by simp
  with "1.prems" have none: "matchAt (drop i tx) = None" and nxt: "exec tx (Suc i) = None"
    by (auto simp: exec.simps[of tx i] split: option.splits)
  show ?case
  proof (cases "j = i")
    case True
    with none show ?thesis by simp
  next
    case False
    with "1.prems" have "Suc i \<le> j" by simp
    from "1.IH"[OF le none nxt this "1.prems"(3)] show ?thesis .
  qed
qed


section \<open>The document model of the encoder\<close>

text \<open>
  The options given to the encoder's \<open>TextRun\<close>; an option that the code leaves out is
  \<open>False\<close> or \<open>None\<close>.
\<close>

record textRun =
  text_r :: jsstring
  font :: string
  size_r :: nat
  bold :: bool
  italics :: bool
  strike :: bool
  style :: "string option"
  color :: "string option"
  underline :: "string option"

datatype inline =
    TextRun textRun
  | ExternalHyperlink "textRun list" jsstring

definition plainRun :: "jsstring \<Rightarrow> textRun" where
  "plainRun t =
     \<lparr>text_r = t, font = ''Arial'', size_r = 24, bold = False, italics = False,
      strike = False, style = None, color = None, underline = None\<rparr>"

definition linkRun :: "jsstring \<Rightarrow> textRun" where
  "linkRun t =
     \<lparr>text_r = t, font = ''Arial'', size_r = 24, bold = False, italics = False,
      strike = False, style = Some ''Hyperlink'', color = Some ''0563C1'',
      underline = Some ''single''\<rparr>"

text \<open>A string is truthy when it is defined and not empty.\<close>

fun truthy :: "jsstring option \<Rightarrow> bool" where
  "truthy None = False"
| "truthy (Some s) = (s \<noteq> [])"

section \<open>The inline span parser\<close>

text \<open>The run pushed for one match: the chain of \<open>if\<close>/\<open>else if\<close> in the loop body.\<close>

definition matchRuns :: "regexMatch \<Rightarrow> inline list" where
  "matchRuns m =
     (let part = m0 m in
      if truthy (m2 m) \<and> truthy (m3 m) then
        (case (m2 m, m3 m) of
           (Some t, Some u) \<Rightarrow> [ExternalHyperlink [linkRun t] u]
         | _ \<Rightarrow> [])
      else if startsWith part (js ''~~'') \<and> endsWith part (js ''~~'') then
        [TextRun ((plainRun (slice part 2 (- 2)))\<lparr>strike := True\<rparr>)]
      else if startsWith part (js ''**'') \<and> endsWith part (js ''**'') then
        [TextRun ((plainRun (slice part 2 (- 2)))\<lparr>bold := True\<rparr>)]
      else if startsWith part (js ''*'') \<and> endsWith part (js ''*'')
              \<and> \<not> startsWith part (js ''**'') then
        [TextRun ((plainRun (slice part 1 (- 1)))\<lparr>italics := True\<rparr>)]
      else if startsWith part (js ''`'') \<and> endsWith part (js ''`'') then
        [TextRun ((plainRun (slice part 1 (- 1)))\<lparr>font := ''Courier New''\<rparr>)]
      else [])"

text \<open>The text between the previous match and this one, pushed when it is not empty.\<close>

definition beforeRuns :: "jsstring \<Rightarrow> nat \<Rightarrow> regexMatch \<Rightarrow> inline list" where
  "beforeRuns text lastIndex m =
     (if lastIndex < index m then
        (let beforeText = slice text (int lastIndex) (int (index m)) in
         if beforeText \<noteq> [] then [TextRun (plainRun beforeText)] else [])
      else [])"

text \<open>
  The \<open>while\<close> loop. Its state is the variable \<open>lastIndex\<close> and the array \<open>result\<close>;
  the expression's own \<open>lastIndex\<close> is always equal to the variable (both are \<open>0\<close> at
  the start and the end of the match afterwards), so one number stands for both. The
  loop ends because a match is never empty.
\<close>

function pftLoop :: "jsstring \<Rightarrow> nat \<Rightarrow> inline list \<Rightarrow> nat \<times> inline list" where
  "pftLoop tx lastIndex result =
     (case exec tx lastIndex of
        None \<Rightarrow> (lastIndex, result)
      | Some m \<Rightarrow>
          pftLoop tx (index m + length (m0 m))
            (result @ beforeRuns tx lastIndex m @ matchRuns m))"
  by pat_completeness auto
termination
proof (relation "measure (\<lambda>(tx, lastIndex, result). Suc (length tx) - lastIndex)")
  show "wf (measure (\<lambda>(tx, lastIndex, result). Suc (length tx) - lastIndex))"
    by simp
next
  fix tx :: jsstring and lastIndex :: nat and result :: "inline list" and m
  assume "exec tx lastIndex = Some m"
  from exec_Some[OF this]
  have "lastIndex \<le> index m" "index m + length (m0 m) \<le> length tx" "m0 m \<noteq> []"
    by blast+
  then show "((tx, index m + length (m0 m), result @ beforeRuns tx lastIndex m @ matchRuns m),
              (tx, lastIndex, result))
             \<in> measure (\<lambda>(tx, lastIndex, result). Suc (length tx) - lastIndex)"
    by (cases "m0 m") auto
qed

declare pftLoop.simps [simp del]

definition processFormattedText :: "jsstring \<Rightarrow> inline list" where
  "processFormattedText tx =
     (let (lastIndex, result) = pftLoop tx 0 [];
          result1 =
            (if lastIndex < length tx then
               (let remainingText = sliceFrom tx (int lastIndex) in
                if remainingText \<noteq> [] then result @ [TextRun (plainRun remainingText)]
                else result)
             else result)
      in if length result1 = 0 then result1 @ [TextRun (plainRun tx)] else result1)"

section \<open>The constructs behind the alternatives\<close>

text \<open>
  What the alternatives of the expression match, read off pattern by pattern.

  \<open>lazyUntil d s\<close> is the length of the shortest stretch of characters other than
  line terminators at the start of \<open>s\<close> that is followed by the string \<open>d\<close>: what the
  lazy \<^verbatim>\<open>.*?\<close> consumes before a closing marker \<open>d\<close>.
\<close>

fun lazyUntil :: "jsstring \<Rightarrow> jsstring \<Rightarrow> nat option" where
  "lazyUntil d [] = (if d = [] then Some 0 else None)"
| "lazyUntil d (c # cs) =
     (if startsWith (c # cs) d then Some 0
      else if isLineTerminator c then None
      else map_option Suc (lazyUntil d cs))"

text \<open>
  A pattern \<open>d.*?d\<close> at the start of \<open>s\<close>: the content between the markers and the
  rest after the closing marker.
\<close>

definition delimitedAt :: "jsstring \<Rightarrow> jsstring \<Rightarrow> (jsstring \<times> jsstring) option" where
  "delimitedAt d s =
     (if startsWith s d then
        (case lazyUntil d (drop (length d) s) of
           None \<Rightarrow> None
         | Some n \<Rightarrow> Some (take n (drop (length d) s), drop (length d + n + length d) s))
      else None)"

text \<open>
  A non-empty stretch of characters other than \<open>a\<close>, followed by \<open>a\<close>: the stretch and
  the rest after \<open>a\<close>. This is \<^verbatim>\<open>[^a]+\<close> followed by \<open>a\<close>.
\<close>

definition bracketed :: "jschar \<Rightarrow> jsstring \<Rightarrow> (jsstring \<times> jsstring) option" where
  "bracketed a s =
     (let t = takeWhile (\<lambda>c. c \<noteq> a) s in
      case dropWhile (\<lambda>c. c \<noteq> a) s of
        [] \<Rightarrow> None
      | x # rest \<Rightarrow> if t = [] then None else Some (t, rest))"

text \<open>The link pattern at the start of \<open>s\<close>: the text, the target and the rest.\<close>

definition linkAt :: "jsstring \<Rightarrow> (jsstring \<times> jsstring \<times> jsstring) option" where
  "linkAt s =
     (case s of
        [] \<Rightarrow> None
      | c # s1 \<Rightarrow>
          if c \<noteq> ch CHR ''['' then None
          else (case bracketed (ch CHR '']'') s1 of
                  None \<Rightarrow> None
                | Some (t, s2) \<Rightarrow>
                    (case s2 of
                       [] \<Rightarrow> None
                     | c2 # s3 \<Rightarrow>
                         if c2 \<noteq> ch CHR ''('' then None
                         else (case bracketed (ch CHR '')'') s3 of
                                 None \<Rightarrow> None
                               | Some (u, rest) \<Rightarrow> Some (t, u, rest)))))"

text \<open>
  The five kinds of construct, with their content, and the construct found at the
  start of a string by the five matchers in their priority order: link, strikethrough,
  bold, italic, inline code.
\<close>

datatype construct =
    CLink jsstring jsstring
  | CStrike jsstring
  | CBold jsstring
  | CItalic jsstring
  | CCode jsstring

definition constructAt :: "jsstring \<Rightarrow> (construct \<times> jsstring) option" where
  "constructAt s =
     (case linkAt s of
        Some (t, u, rest) \<Rightarrow> Some (CLink t u, rest)
      | None \<Rightarrow>
     (case delimitedAt (js ''~~'') s of
        Some (x, rest) \<Rightarrow> Some (CStrike x, rest)
      | None \<Rightarrow>
     (case delimitedAt (js ''**'') s of
        Some (x, rest) \<Rightarrow> Some (CBold x, rest)
      | None \<Rightarrow>
     (case delimitedAt (js ''*'') s of
        Some (x, rest) \<Rightarrow> Some (CItalic x, rest)
      | None \<Rightarrow>
     (case delimitedAt (js ''`'') s of
        Some (x, rest) \<Rightarrow> Some (CCode x, rest)
      | None \<Rightarrow> None)))))"

text \<open>
  The characters of a construct in the text, and its content without the markers.
  For a link the markers are the brackets and the parentheses; \<open>withTarget\<close> says
  whether the target counts as content or goes with the markers.
\<close>

fun source :: "construct \<Rightarrow> jsstring" where
  "source (CLink t u) = js ''['' @ t @ js '']('' @ u @ js '')''"
| "source (CStrike x) = js ''~~'' @ x @ js ''~~''"
| "source (CBold x) = js ''**'' @ x @ js ''**''"
| "source (CItalic x) = js ''*'' @ x @ js ''*''"
| "source (CCode x) = js ''`'' @ x @ js ''`''"

fun content :: "bool \<Rightarrow> construct \<Rightarrow> jsstring" where
  "content withTarget (CLink t u) = (if withTarget then t @ u else t)"
| "content withTarget (CStrike x) = x"
| "content withTarget (CBold x) = x"
| "content withTarget (CItalic x) = x"
| "content withTarget (CCode x) = x"

text \<open>The captures 2 and 3 that a construct leaves in the match.\<close>

fun link2 :: "construct \<Rightarrow> jsstring option" where
  "link2 (CLink t u) = Some t"
| "link2 _ = None"

fun link3 :: "construct \<Rightarrow> jsstring option" where
  "link3 (CLink t u) = Some u"
| "link3 _ = None"

text \<open>
  What recognition guarantees about the content, and the run that the loop pushes for a
  construct. An italic match with empty content is the string \<open>**\<close>, which the chain
  of tests in the loop takes for bold.
\<close>

fun wellFormed :: "construct \<Rightarrow> bool" where
  "wellFormed (CLink t u) = (t \<noteq> [] \<and> u \<noteq> [])"
| "wellFormed (CItalic x) = (ch CHR ''*'' \<notin> set x)"
| "wellFormed _ = True"

fun runOf :: "construct \<Rightarrow> inline" where
  "runOf (CLink t u) = ExternalHyperlink [linkRun t] u"
| "runOf (CStrike x) = TextRun ((plainRun x)\<lparr>strike := True\<rparr>)"
| "runOf (CBold x) = TextRun ((plainRun x)\<lparr>bold := True\<rparr>)"
| "runOf (CItalic x) =
     (if x = [] then TextRun ((plainRun [])\<lparr>bold := True\<rparr>)
      else TextRun ((plainRun x)\<lparr>italics := True\<rparr>))"
| "runOf (CCode x) = TextRun ((plainRun x)\<lparr>font := ''Courier New''\<rparr>)"

text \<open>
  The literal text of a run: its text; for a hyperlink the text it displays, followed
  by its target when \<open>withTarget\<close> is set.
\<close>

fun inlineText :: "bool \<Rightarrow> inline \<Rightarrow> jsstring" where
  "inlineText withTarget (TextRun r) = text_r r"
| "inlineText withTarget (ExternalHyperlink children link) =
     concat (map text_r children) @ (if withTarget then link else [])"

text \<open>The first element of a list of outcomes.\<close>

definition firstOf :: "'a list \<Rightarrow> 'a option" where
  "firstOf xs = (case xs of [] \<Rightarrow> None | x # _ \<Rightarrow> Some x)"

subsection \<open>The expression finds exactly the constructs\<close>

lemma firstOf_append:
  "firstOf (xs @ ys) = (case firstOf xs of Some x \<Rightarrow> Some x | None \<Rightarrow> firstOf ys)"
  by (cases xs) (auto simp: firstOf_def)

lemma firstOf_map: "firstOf (map f xs) = map_option f (firstOf xs)"
  by (cases xs) (auto simp: firstOf_def)

lemma firstOf_simps [simp]: "firstOf [] = None" "firstOf (x # xs) = Some x"
  by (auto simp: firstOf_def)

lemma lazy_first:
  "firstOf (run (Seq (LazyStar Dot) (str d)) s k) =
     map_option (\<lambda>n. (drop (n + length d) s, k)) (lazyUntil d s)"
proof (induction s)
  case Nil
  then show ?case by (auto simp: run_str startsWith_def)
next
  case (Cons c cs)
  have unf: "run (Seq (LazyStar Dot) (str d)) (c # cs) k =
          run (str d) (c # cs) k
          @ (if isLineTerminator c then [] else run (Seq (LazyStar Dot) (str d)) cs k)"
    by (simp add: comp_def)
  show ?case unfolding unf firstOf_append using Cons.IH
    by (auto simp: run_str option.map_comp comp_def)
qed

lemma greedyStar_NotChar:
  "concat (map (\<lambda>s1. case s1 of [] \<Rightarrow> [] | x # xs \<Rightarrow> if x = a then G (x # xs) else [])
          (greedyStar (NotChar a) s)) =
     (case dropWhile (\<lambda>c. c \<noteq> a) s of [] \<Rightarrow> [] | x # xs \<Rightarrow> G (x # xs))"
  by (induction s) auto

lemma take_length_dropWhile:
  "take (length s - length (dropWhile P s)) s = takeWhile P s"
  by (induction s) (auto simp: Suc_diff_le length_dropWhile_le)

lemma run_Group_GreedyPlus_Lit:
  "run (Seq (Group n (GreedyPlus (NotChar a))) (Seq (Atom (Lit a)) r)) s k =
     (case bracketed a s of
        None \<Rightarrow> []
      | Some (t, rest) \<Rightarrow> run r rest (k(n \<mapsto> t)))"
proof -
  define G where "G s1 = run r (tl s1) (k(n \<mapsto> take (length s - length s1) s))" for s1
  have "run (Seq (Group n (GreedyPlus (NotChar a))) (Seq (Atom (Lit a)) r)) s k =
        concat (map (\<lambda>s1. run (Seq (Atom (Lit a)) r) s1 (k(n \<mapsto> take (length s - length s1) s)))
               (greedyPlus (NotChar a) s))"
    by (simp add: comp_def)
  also have "(\<lambda>s1. run (Seq (Atom (Lit a)) r) s1 (k(n \<mapsto> take (length s - length s1) s)))
    = (\<lambda>s1. case s1 of [] \<Rightarrow> [] | x # xs \<Rightarrow> if x = a then G (x # xs) else [])"
    by (auto simp: fun_eq_iff G_def split: list.splits)
  also have "concat (map (\<lambda>s1. case s1 of [] \<Rightarrow> [] | x # xs \<Rightarrow> if x = a then G (x # xs) else [])
               (greedyPlus (NotChar a) s))
     = (case bracketed a s of None \<Rightarrow> [] | Some (t, rest) \<Rightarrow> run r rest (k(n \<mapsto> t)))"
  proof (cases s)
    case Nil
    then show ?thesis by (simp add: bracketed_def)
  next
    case (Cons c cs)
    show ?thesis
    proof (cases "c = a")
      case True
      with Cons show ?thesis by (simp add: bracketed_def)
    next
      case False
      have tk: "take (length s - length (dropWhile (\<lambda>c. c \<noteq> a) s)) s = takeWhile (\<lambda>c. c \<noteq> a) s"
        by (rule take_length_dropWhile)
      have nil: "dropWhile P xs = []" if "\<forall>x\<in>set xs. P x" for P and xs :: jsstring
        using that by simp
      from False \<open>s = c # cs\<close> tk show ?thesis
        by (auto simp: bracketed_def greedyStar_NotChar G_def Let_def nil split: list.splits)
    qed
  qed
  finally show ?thesis .
qed

lemma run_Seq_Atom_end: "run (Seq r (Atom a)) s k = run (Seq r (Seq (Atom a) Empty)) s k"
proof -
  have "(\<lambda>(s1, k1). run (Atom a) s1 k1) = (\<lambda>(s1, k1). run (Seq (Atom a) Empty) s1 k1)"
    by (auto simp: fun_eq_iff split: list.splits)
  then show ?thesis by (simp only: run.simps(3)[of r])
qed

lemma run_linkRx:
  "run linkRx s k =
     (case linkAt s of
        None \<Rightarrow> []
      | Some (t, u, rest) \<Rightarrow> [(rest, k(2 \<mapsto> t, 3 \<mapsto> u))])"
proof -
  have "run linkRx s k =
     (case s of [] \<Rightarrow> [] | c # s1 \<Rightarrow>
        if c = ch CHR ''['' then
          (case bracketed (ch CHR '']'') s1 of None \<Rightarrow> []
           | Some (t, s2) \<Rightarrow>
              (case s2 of [] \<Rightarrow> [] | c2 # s3 \<Rightarrow>
                 if c2 = ch CHR ''('' then
                   (case bracketed (ch CHR '')'') s3 of None \<Rightarrow> []
                    | Some (u, rest) \<Rightarrow> [(rest, k(2 \<mapsto> t, 3 \<mapsto> u))])
                 else []))
        else [])"
    unfolding linkRx_def
    by (simp only: run_Seq_Atom_end run_Seq_Lit run_Group_GreedyPlus_Lit run.simps(1))
  then show ?thesis
    by (simp add: linkAt_def split: list.splits option.splits)
qed

lemma run_delimited:
  "firstOf (run (delimited d) s k) = map_option (\<lambda>(x, rest). (rest, k)) (delimitedAt d s)"
  unfolding delimited_def run_Seq_str delimitedAt_def
  by (simp add: lazy_first option.map_comp comp_def add.commute add.left_commute
      del: run.simps split: option.splits)

lemma firstOf_run_Alt:
  "firstOf (run (Alt r1 r2) s k) =
     (case firstOf (run r1 s k) of Some x \<Rightarrow> Some x | None \<Rightarrow> firstOf (run r2 s k))"
  by (simp add: firstOf_append)

lemma firstOf_run_linkRx:
  "firstOf (run linkRx s k) =
     map_option (\<lambda>(t, u, rest). (rest, k(2 \<mapsto> t, 3 \<mapsto> u))) (linkAt s)"
  by (simp add: run_linkRx split: option.splits)

lemma matchAt_firstOf: "matchAt s = firstOf (run regex s Map.empty)"
  by (simp add: matchAt_def firstOf_def)

lemma matchAt_None: "constructAt s = None \<Longrightarrow> matchAt s = None"
  unfolding matchAt_firstOf regex_def run.simps(5) firstOf_map firstOf_run_Alt
    firstOf_run_linkRx run_delimited constructAt_def
  by (auto split: option.splits)

lemma matchAt_Some_construct:
  "constructAt s = Some (c, rest) \<Longrightarrow>
     \<exists>k. matchAt s = Some (rest, k) \<and> k 2 = link2 c \<and> k 3 = link3 c"
  unfolding matchAt_firstOf regex_def run.simps(5) firstOf_map firstOf_run_Alt
    firstOf_run_linkRx run_delimited constructAt_def
  by (auto split: option.splits)

lemma startsWith_length: "startsWith s d \<Longrightarrow> length d \<le> length s"
proof -
  assume "startsWith s d"
  then have "take (length d) s = d" by (simp add: startsWith_def)
  from arg_cong[OF this, of length] show ?thesis by simp
qed

lemma startsWith_append: "startsWith s d \<longleftrightarrow> (\<exists>r. s = d @ r)"
  unfolding startsWith_def by (metis append_eq_conv_conj)

lemma lazyUntil_Some:
  "lazyUntil d s = Some n \<Longrightarrow>
     n + length d \<le> length s \<and> startsWith (drop n s) d
     \<and> (\<forall>c \<in> set (take n s). \<not> isLineTerminator c)
     \<and> (\<forall>j<n. \<not> startsWith (drop j s) d)"
proof (induction s arbitrary: n)
  case Nil
  then show ?case by (auto simp: startsWith_def split: if_splits)
next
  case (Cons c cs)
  show ?case
  proof (cases "startsWith (c # cs) d")
    case True
    with Cons.prems have "n = 0" by simp
    moreover have "length d \<le> length (c # cs)"
      using True by (rule startsWith_length)
    ultimately show ?thesis using True by simp
  next
    case False
    with Cons.prems obtain n' where n': "\<not> isLineTerminator c" "lazyUntil d cs = Some n'" "n = Suc n'"
      by (auto split: if_splits)
    from Cons.IH[OF n'(2)] have ih: "n' + length d \<le> length cs" "startsWith (drop n' cs) d"
      "\<forall>c \<in> set (take n' cs). \<not> isLineTerminator c" "\<forall>j<n'. \<not> startsWith (drop j cs) d"
      by blast+
    have "\<not> startsWith (drop j (c # cs)) d" if "j < n" for j
      using that False ih(4) n'(3) by (cases j) auto
    with ih n' show ?thesis by simp
  qed
qed

lemma bracketed_Some:
  assumes "bracketed a s = Some (t, rest)"
  shows "s = t @ a # rest \<and> t \<noteq> [] \<and> a \<notin> set t"
proof -
  from assms obtain x where dw: "dropWhile (\<lambda>c. c \<noteq> a) s = x # rest"
    and t: "t = takeWhile (\<lambda>c. c \<noteq> a) s" "t \<noteq> []"
    by (auto simp: bracketed_def Let_def split: list.splits if_splits)
  from dw have "x = a" using hd_dropWhile[of "\<lambda>c. c \<noteq> a" s] by auto
  moreover have "s = takeWhile (\<lambda>c. c \<noteq> a) s @ dropWhile (\<lambda>c. c \<noteq> a) s" by simp
  moreover have "a \<notin> set (takeWhile (\<lambda>c. c \<noteq> a) s)" by (auto dest: set_takeWhileD)
  ultimately show ?thesis using dw t by simp
qed

lemma linkAt_Some:
  assumes "linkAt s = Some (t, u, rest)"
  shows "s = js ''['' @ t @ js '']('' @ u @ js '')'' @ rest \<and> t \<noteq> [] \<and> u \<noteq> []
         \<and> ch CHR '']'' \<notin> set t \<and> ch CHR '')'' \<notin> set u"
proof -
  from assms obtain s1 s3 where s: "s = ch CHR ''['' # s1"
    and b1: "bracketed (ch CHR '']'') s1 = Some (t, ch CHR ''('' # s3)"
    and b2: "bracketed (ch CHR '')'') s3 = Some (u, rest)"
    by (auto simp: linkAt_def split: list.splits if_splits option.splits)
  from bracketed_Some[OF b1] bracketed_Some[OF b2] s show ?thesis
    by (simp add: js_def)
qed

lemma delimitedAt_Some:
  assumes "delimitedAt d s = Some (x, rest)"
  shows "s = d @ x @ d @ rest \<and> (\<forall>c \<in> set x. \<not> isLineTerminator c)
         \<and> (\<forall>j<length x. \<not> startsWith (drop j (x @ d @ rest)) d)"
proof -
  from assms obtain n where sw: "startsWith s d"
    and n: "lazyUntil d (drop (length d) s) = Some n"
    and x: "x = take n (drop (length d) s)"
    and rest: "rest = drop (length d + n + length d) s"
    by (auto simp: delimitedAt_def split: if_splits option.splits)
  define s' where "s' = drop (length d) s"
  from sw have s: "s = d @ s'" unfolding s'_def startsWith_def
    by (metis append_take_drop_id)
  from lazyUntil_Some[OF n] have l: "n + length d \<le> length s'" "startsWith (drop n s') d"
    "\<forall>c \<in> set (take n s'). \<not> isLineTerminator c" "\<forall>j<n. \<not> startsWith (drop j s') d"
    unfolding s'_def by blast+
  have s'': "s' = x @ d @ rest"
  proof -
    have "s' = take n s' @ drop n s'" by simp
    also have "drop n s' = take (length d) (drop n s') @ drop (length d) (drop n s')"
      by (simp only: append_take_drop_id)
    also have "take (length d) (drop n s') = d" using l(2) by (simp add: startsWith_def)
    also have "drop (length d) (drop n s') = rest"
      unfolding rest s'_def by (simp add: add.commute add.left_commute)
    finally show ?thesis unfolding x s'_def .
  qed
  have lenx: "length x = n" using l(1) unfolding x s'_def by simp
  have "\<forall>c \<in> set x. \<not> isLineTerminator c" using l(3) unfolding x s'_def .
  moreover have "\<forall>j<length x. \<not> startsWith (drop j (x @ d @ rest)) d"
    using l(4) lenx s'' by simp
  ultimately show ?thesis using s s'' by simp
qed

lemma constructAt_Some:
  assumes "constructAt s = Some (c, rest)"
  shows "s = source c @ rest \<and> wellFormed c"
proof -
  have star: "ch CHR ''*'' \<notin> set x"
    if "\<forall>j<length x. \<not> startsWith (drop j (x @ js ''*'' @ r)) (js ''*'')" for x r
  proof
    assume "ch CHR ''*'' \<in> set x"
    then obtain j where j: "j < length x" "x ! j = ch CHR ''*''"
      by (auto simp: in_set_conv_nth)
    then have "drop j (x @ js ''*'' @ r) = ch CHR ''*'' # drop (Suc j) x @ js ''*'' @ r"
      using Cons_nth_drop_Suc[of j x] by simp
    then have "startsWith (drop j (x @ js ''*'' @ r)) (js ''*'')"
      by (simp add: startsWith_def js_def)
    with that j(1) show False by blast
  qed
  from assms consider
      (link) t u where "linkAt s = Some (t, u, rest)" "c = CLink t u"
    | (strike) x where "delimitedAt (js ''~~'') s = Some (x, rest)" "c = CStrike x"
    | (bold) x where "delimitedAt (js ''**'') s = Some (x, rest)" "c = CBold x"
    | (italic) x where "delimitedAt (js ''*'') s = Some (x, rest)" "c = CItalic x"
    | (code) x where "delimitedAt (js ''`'') s = Some (x, rest)" "c = CCode x"
    unfolding constructAt_def by (auto split: option.splits)
  then show ?thesis
  proof cases
    case link
    from linkAt_Some[OF link(1)] link(2) show ?thesis by simp
  next
    case strike
    from delimitedAt_Some[OF strike(1)] strike(2) show ?thesis by simp
  next
    case bold
    from delimitedAt_Some[OF bold(1)] bold(2) show ?thesis by simp
  next
    case italic
    from delimitedAt_Some[OF italic(1)] italic(2) star[of x rest] show ?thesis by simp
  next
    case code
    from delimitedAt_Some[OF code(1)] code(2) show ?thesis by simp
  qed
qed

lemma slice_mid:
  "q \<noteq> [] \<Longrightarrow> slice (p @ x @ q) (int (length p)) (- int (length q)) = x"
  by (cases q) (auto simp: slice_def Let_def)

lemma endsWith_append [simp]: "endsWith (p @ d) d"
  by (simp add: endsWith_def)

lemma startsWith_same [simp]: "startsWith (d @ r) d"
  by (simp add: startsWith_def)

lemma matchRuns_construct:
  assumes "m0 m = source c" "m2 m = link2 c" "m3 m = link3 c" "wellFormed c"
  shows "matchRuns m = [runOf c]"
proof (cases c)
  case (CLink t u)
  with assms show ?thesis by (simp add: matchRuns_def)
next
  case (CStrike x)
  have "slice (js ''~~'' @ x @ js ''~~'') 2 (- 2) = x"
    using slice_mid[of "js ''~~''" "js ''~~''" x] by (simp add: js_def)
  moreover have "endsWith (js ''~~'' @ x @ js ''~~'') (js ''~~'')"
    using endsWith_append[of "js ''~~'' @ x" "js ''~~''"] by simp
  ultimately show ?thesis using assms CStrike by (simp add: matchRuns_def)
next
  case (CBold x)
  have "slice (js ''**'' @ x @ js ''**'') 2 (- 2) = x"
    using slice_mid[of "js ''**''" "js ''**''" x] by (simp add: js_def)
  moreover have "endsWith (js ''**'' @ x @ js ''**'') (js ''**'')"
    using endsWith_append[of "js ''**'' @ x" "js ''**''"] by simp
  moreover have "\<not> startsWith (js ''**'' @ x @ js ''**'') (js ''~~'')"
    by (simp add: startsWith_def js_def ch_def)
  ultimately show ?thesis using assms CBold by (simp add: matchRuns_def)
next
  case (CItalic x)
  have sl: "slice (js ''*'' @ x @ js ''*'') 1 (- 1) = x"
    using slice_mid[of "js ''*''" "js ''*''" x] by (simp add: js_def)
  have ew: "endsWith (js ''*'' @ x @ js ''*'') (js ''*'')"
    using endsWith_append[of "js ''*'' @ x" "js ''*''"] by simp
  have nt: "\<not> startsWith (js ''*'' @ x @ js ''*'') (js ''~~'')"
    by (simp add: startsWith_def js_def ch_def)
  show ?thesis
  proof (cases x)
    case Nil
    have "slice (js ''**'') 2 (- 2) = []" by (simp add: slice_def js_def)
    moreover have "startsWith (js ''**'') (js ''**'')" "endsWith (js ''**'') (js ''**'')"
      "\<not> startsWith (js ''**'') (js ''~~'')"
      by (simp_all add: startsWith_def endsWith_def js_def ch_def)
    moreover have "js ''*'' @ [] @ js ''*'' = js ''**''" by (simp add: js_def)
    ultimately show ?thesis using assms CItalic Nil by (simp add: matchRuns_def)
  next
    case (Cons y ys)
    with assms CItalic have "y \<noteq> ch CHR ''*''" by auto
    then have "\<not> startsWith (js ''*'' @ x @ js ''*'') (js ''**'')"
      using Cons by (simp add: startsWith_def js_def)
    with sl ew nt assms CItalic Cons show ?thesis by (simp add: matchRuns_def)
  qed
next
  case (CCode x)
  have "slice (js ''`'' @ x @ js ''`'') 1 (- 1) = x"
    using slice_mid[of "js ''`''" "js ''`''" x] by (simp add: js_def)
  moreover have "endsWith (js ''`'' @ x @ js ''`'') (js ''`'')"
    using endsWith_append[of "js ''`'' @ x" "js ''`''"] by simp
  moreover have "\<not> startsWith (js ''`'' @ x @ js ''`'') (js ''~~'')"
    "\<not> startsWith (js ''`'' @ x @ js ''`'') (js ''**'')"
    "\<not> startsWith (js ''`'' @ x @ js ''`'') (js ''*'')"
    by (simp_all add: startsWith_def js_def ch_def)
  ultimately show ?thesis using assms CCode by (simp add: matchRuns_def)
qed

lemma source_nonempty: "source c \<noteq> []"
  by (cases c) (simp_all add: js_def)

text \<open>
  The text with the markers of its constructs removed: scan from left to right; where a
  construct begins, keep its content and go on after it; copy every other character.
\<close>

function stripMarkers :: "bool \<Rightarrow> jsstring \<Rightarrow> jsstring" where
  "stripMarkers withTarget [] = []"
| "stripMarkers withTarget (c # cs) =
     (case constructAt (c # cs) of
        Some (k, rest) \<Rightarrow> content withTarget k @ stripMarkers withTarget rest
      | None \<Rightarrow> c # stripMarkers withTarget cs)"
  by pat_completeness auto
termination
proof (relation "measure (\<lambda>(withTarget, s). length s)")
  show "wf (measure (\<lambda>(withTarget, s). length s))" by simp
next
  fix withTarget :: bool and c :: jschar and cs :: jsstring
  show "((withTarget, cs), (withTarget, c # cs)) \<in> measure (\<lambda>(withTarget, s). length s)"
    by simp
next
  fix withTarget :: bool and c :: jschar and cs :: jsstring and x2 x y
  assume "constructAt (c # cs) = Some x2" "(x, y) = x2"
  then have "constructAt (c # cs) = Some (x, y)" by simp
  from constructAt_Some[OF this] source_nonempty[of x]
  show "((withTarget, y), (withTarget, c # cs)) \<in> measure (\<lambda>(withTarget, s). length s)"
    by (cases "source x") (auto dest: arg_cong[where f = length])
qed

lemma inlineText_runOf: "inlineText w (runOf c) = content w c"
  by (cases c) (simp_all add: plainRun_def linkRun_def)

lemma exec_construct:
  assumes "exec tx i = Some m"
  shows "\<exists>c rest. constructAt (drop (index m) tx) = Some (c, rest)
           \<and> drop (index m) tx = source c @ rest \<and> m0 m = source c
           \<and> matchRuns m = [runOf c]"
proof -
  from exec_Some[OF assms] obtain rest k where
    ma: "matchAt (drop (index m) tx) = Some (rest, k)"
    and dr: "drop (index m) tx = m0 m @ rest" and caps: "m2 m = k 2" "m3 m = k 3"
    by blast
  from ma matchAt_None have "constructAt (drop (index m) tx) \<noteq> None" by force
  then obtain c rest' where ca: "constructAt (drop (index m) tx) = Some (c, rest')" by auto
  from matchAt_Some_construct[OF ca] ma
  have eq: "rest' = rest" "k 2 = link2 c" "k 3 = link3 c" by auto
  from constructAt_Some[OF ca] eq(1)
  have sh: "drop (index m) tx = source c @ rest" and wf: "wellFormed c" by auto
  from sh dr have m0: "m0 m = source c" by simp
  from matchRuns_construct[OF m0 _ _ wf] caps eq have "matchRuns m = [runOf c]" by simp
  with ca eq(1) sh m0 show ?thesis by blast
qed

lemma constructAt_None_iff: "constructAt s = None \<longleftrightarrow> matchAt s = None"
proof
  assume "constructAt s = None" then show "matchAt s = None" by (rule matchAt_None)
next
  assume n: "matchAt s = None"
  show "constructAt s = None"
  proof (rule ccontr)
    assume "constructAt s \<noteq> None"
    then obtain c rest where "constructAt s = Some (c, rest)" by auto
    from matchAt_Some_construct[OF this] n show False by auto
  qed
qed

lemma stripMarkers_skip:
  assumes "\<forall>j. i \<le> j \<and> j < n \<longrightarrow> matchAt (drop j tx) = None" "i \<le> n" "n \<le> length tx"
  shows "stripMarkers w (drop i tx) = take (n - i) (drop i tx) @ stripMarkers w (drop n tx)"
  using assms
proof (induction "n - i" arbitrary: i)
  case 0
  then show ?case by simp
next
  case (Suc d)
  from Suc.hyps(2) Suc.prems have lt: "i < n" "i < length tx" by auto
  then have dr: "drop i tx = tx ! i # drop (Suc i) tx" by (simp add: Cons_nth_drop_Suc)
  from Suc.prems(1) lt have "matchAt (drop i tx) = None" by simp
  then have none: "constructAt (tx ! i # drop (Suc i) tx) = None"
    unfolding dr by (simp add: constructAt_None_iff)
  have ih: "stripMarkers w (drop (Suc i) tx)
       = take (n - Suc i) (drop (Suc i) tx) @ stripMarkers w (drop n tx)"
    using Suc.hyps Suc.prems lt by (intro Suc.hyps(1)) auto
  have n: "n - i = Suc (n - Suc i)" using lt by simp
  show ?case unfolding dr n using none ih by simp
qed

lemma slice_range:
  "i \<le> n \<Longrightarrow> n \<le> length tx \<Longrightarrow> slice tx (int i) (int n) = take (n - i) (drop i tx)"
  by (simp add: slice_def Let_def nat_diff_distrib')

lemma beforeRuns_text:
  assumes "i \<le> index m" "index m \<le> length tx"
  shows "concat (map (inlineText w) (beforeRuns tx i m)) = take (index m - i) (drop i tx)"
  using assms by (auto simp: beforeRuns_def Let_def slice_range plainRun_def)

lemma pftLoop_text:
  "i \<le> length tx \<Longrightarrow> pftLoop tx i res = (j, res') \<Longrightarrow>
     j \<le> length tx \<and>
     concat (map (inlineText w) res') @ drop j tx
       = concat (map (inlineText w) res) @ stripMarkers w (drop i tx)"
proof (induction tx i res rule: pftLoop.induct)
  case (1 tx i res)
  show ?case
  proof (cases "exec tx i")
    case None
    with "1.prems" have eq: "j = i" "res' = res" by (simp_all add: pftLoop.simps[of tx i])
    from exec_None[OF None] have "\<forall>j. i \<le> j \<and> j < length tx \<longrightarrow> matchAt (drop j tx) = None"
      by simp
    from stripMarkers_skip[OF this "1.prems"(1)] have "stripMarkers w (drop i tx) = drop i tx"
      by simp
    with eq "1.prems" show ?thesis by simp
  next
    case (Some m)
    from exec_Some[OF Some] have b: "i \<le> index m" "index m + length (m0 m) \<le> length tx"
      "\<forall>j. i \<le> j \<and> j < index m \<longrightarrow> matchAt (drop j tx) = None" by blast+
    from exec_construct[OF Some] obtain c rest where
      c: "constructAt (drop (index m) tx) = Some (c, rest)"
         "drop (index m) tx = source c @ rest" "m0 m = source c" "matchRuns m = [runOf c]"
      by blast
    from Some "1.prems" have rec:
      "pftLoop tx (index m + length (m0 m)) (res @ beforeRuns tx i m @ matchRuns m) = (j, res')"
      by (simp add: pftLoop.simps[of tx i])
    from "1.IH"[OF Some b(2) rec] have ih: "j \<le> length tx"
      "concat (map (inlineText w) res') @ drop j tx =
       concat (map (inlineText w) (res @ beforeRuns tx i m @ matchRuns m))
       @ stripMarkers w (drop (index m + length (m0 m)) tx)" by blast+
    have rest: "rest = drop (index m + length (m0 m)) tx"
      using c(2,3) by (metis add.commute append_eq_conv_conj drop_drop)
    have "source c @ rest \<noteq> []" using source_nonempty by simp
    then obtain y ys where ys: "source c @ rest = y # ys" by (cases "source c @ rest") auto
    have "stripMarkers w (drop (index m) tx) = content w c @ stripMarkers w rest"
      using c(1) unfolding c(2) ys by simp
    moreover have "stripMarkers w (drop i tx)
        = take (index m - i) (drop i tx) @ stripMarkers w (drop (index m) tx)"
      using stripMarkers_skip[OF b(3) b(1)] b(2) by simp
    ultimately have "stripMarkers w (drop i tx)
        = take (index m - i) (drop i tx) @ content w c @ stripMarkers w rest" by simp
    with ih c(4) rest beforeRuns_text[OF b(1), of tx] b(2) show ?thesis
      by (simp add: inlineText_runOf)
  qed
qed


lemma pftLoop_cases:
  "pftLoop tx i res = (j, res') \<Longrightarrow> (j = i \<and> res' = res) \<or> res' \<noteq> []"
proof (induction tx i res rule: pftLoop.induct)
  case (1 tx i res)
  show ?case
  proof (cases "exec tx i")
    case None
    with "1.prems" show ?thesis by (simp add: pftLoop.simps[of tx i])
  next
    case (Some m)
    from exec_construct[OF Some] have ne: "matchRuns m \<noteq> []" by auto
    from Some "1.prems" have rec:
      "pftLoop tx (index m + length (m0 m)) (res @ beforeRuns tx i m @ matchRuns m) = (j, res')"
      by (simp add: pftLoop.simps[of tx i])
    from "1.IH"[OF Some rec] ne show ?thesis by auto
  qed
qed

lemma processFormattedText_text:
  "concat (map (inlineText w) (processFormattedText tx)) = stripMarkers w tx"
proof -
  obtain j res where l: "pftLoop tx 0 [] = (j, res)" by (cases "pftLoop tx 0 []")
  from pftLoop_text[OF _ l] have inv: "j \<le> length tx"
    "concat (map (inlineText w) res) @ drop j tx = stripMarkers w tx" by simp_all
  have sl: "sliceFrom tx (int j) = drop j tx"
    using inv(1) by (simp add: sliceFrom_def slice_range)
  show ?thesis
  proof (cases "j < length tx")
    case True
    with l sl inv(2) show ?thesis
      by (simp add: processFormattedText_def plainRun_def)
  next
    case False
    with inv(1) have j: "j = length tx" by simp
    from pftLoop_cases[OF l] show ?thesis
    proof
      assume "j = 0 \<and> res = []"
      with j l inv(2) show ?thesis by (simp add: processFormattedText_def plainRun_def)
    next
      assume "res \<noteq> []"
      with j l inv(2) show ?thesis by (simp add: processFormattedText_def)
    qed
  qed
qed



section \<open>A text with one construct\<close>
















lemma bracketed_found:
  "t \<noteq> [] \<Longrightarrow> a \<notin> set t \<Longrightarrow> bracketed a (t @ a # rest) = Some (t, rest)"
proof -
  assume t: "t \<noteq> []" "a \<notin> set t"
  then have all: "\<forall>c \<in> set t. c \<noteq> a" by auto
  then have "takeWhile (\<lambda>c. c \<noteq> a) (t @ a # rest) = t"
    by (simp add: takeWhile_tail)
  moreover from all have "dropWhile (\<lambda>c. c \<noteq> a) (t @ a # rest) = a # rest"
    by (simp add: dropWhile_append3)
  ultimately show ?thesis using t(1) by (simp add: bracketed_def)
qed









section \<open>The image resolver\<close>

datatype imageType = png | jpg | gif | bmp

text \<open>
  \<open>String.prototype.toLowerCase\<close> belongs to the JavaScript engine, not to the
  repository: the functions that call it take it as the parameter \<open>toLowerCase\<close>, and
  what is proved of them holds for every such function. \<open>toLowerCaseAscii\<close> is its
  value on strings of ASCII code units, for running the functions on concrete URLs.
\<close>

definition toLowerCaseAscii :: "jsstring \<Rightarrow> jsstring" where
  "toLowerCaseAscii s = map (\<lambda>c. if 0x41 \<le> c \<and> c \<le> 0x5A then c + 0x20 else c) s"

definition detectImageType ::
    "(jsstring \<Rightarrow> jsstring) \<Rightarrow> jsstring \<Rightarrow> jsstring \<Rightarrow> imageType" where
  "detectImageType toLowerCase url contentType =
     (let urlLower = toLowerCase url in
      if includes_str urlLower (js ''.png'') then png
      else if includes_str urlLower (js ''.jpg'') \<or> includes_str urlLower (js ''.jpeg'')
        then jpg
      else if includes_str urlLower (js ''.gif'') then gif
      else if includes_str urlLower (js ''.bmp'') then bmp
      else
        (let ctLower = toLowerCase contentType in
         if includes_str ctLower (js ''image/png'') then png
         else if includes_str ctLower (js ''image/jpeg'')
                 \<or> includes_str ctLower (js ''image/jpg'') then jpg
         else if includes_str ctLower (js ''image/gif'') then gif
         else if includes_str ctLower (js ''image/bmp'') then bmp
         else png))"

text \<open>None of the five image suffixes occurs in the lower-cased URL.\<close>

definition urlInconclusive :: "jsstring \<Rightarrow> bool" where
  "urlInconclusive urlLower =
     (\<not> includes_str urlLower (js ''.png'') \<and> \<not> includes_str urlLower (js ''.jpg'')
      \<and> \<not> includes_str urlLower (js ''.jpeg'') \<and> \<not> includes_str urlLower (js ''.gif'')
      \<and> \<not> includes_str urlLower (js ''.bmp''))"

text \<open>
  The network. \<open>fetch(url)\<close> either rejects (\<open>None\<close>) or resolves to a response, of
  which the resolver reads \<open>ok\<close>, the \<open>content-type\<close> header (\<open>null\<close> when absent) and
  the body through \<open>arrayBuffer()\<close>, which may reject as well (\<open>None\<close>). What a
  request returns may depend on the requests made before it. The requests made so far
  are the state that the resolver threads.
\<close>

type_synonym bytes = "8 word list"

record response =
  ok :: bool
  contentTypeHeader :: "jsstring option"
  arrayBuffer :: "bytes option"

type_synonym network = "jsstring list \<Rightarrow> jsstring \<Rightarrow> response option"

record embeddedImage =
  img_data :: bytes
  img_width :: nat
  img_height :: nat
  img_type :: imageType

text \<open>A value thrown inside \<open>fetchImage\<close>: a rejected \<open>fetch\<close> or a rejected body read.\<close>

datatype exn = FetchRejected | BodyRejected

text \<open>\<open>a || b\<close> on strings: \<open>a\<close> unless it is empty.\<close>

definition orElse :: "jsstring \<Rightarrow> jsstring \<Rightarrow> jsstring" where
  "orElse a b = (if a \<noteq> [] then a else b)"

text \<open>
  The body of the \<open>try\<close> block of \<open>fetchImage\<close>: \<open>Inl\<close> is a thrown value, \<open>Inr None\<close>
  the returned \<open>null\<close>. The second component is the list of requests after the call.
\<close>

definition fetchImageTry ::
    "(jsstring \<Rightarrow> jsstring) \<Rightarrow> network \<Rightarrow> jsstring list \<Rightarrow> jsstring
      \<Rightarrow> (exn + embeddedImage option) \<times> jsstring list" where
  "fetchImageTry toLowerCase net requests url =
     (let urlLower = toLowerCase url in
      if includes_str urlLower (js ''.svg'') then (Inr None, requests)
      else
        (case net requests url of
           None \<Rightarrow> (Inl FetchRejected, requests @ [url])
         | Some response \<Rightarrow>
             if \<not> ok response then (Inr None, requests @ [url])
             else
               (let contentType =
                      orElse (case contentTypeHeader response of None \<Rightarrow> [] | Some h \<Rightarrow> h) []
                in
                if includes_str contentType (js ''svg'') then (Inr None, requests @ [url])
                else
                  (let imageType = detectImageType toLowerCase url contentType in
                   case arrayBuffer response of
                     None \<Rightarrow> (Inl BodyRejected, requests @ [url])
                   | Some buffer \<Rightarrow>
                       (Inr (Some \<lparr>img_data = buffer, img_width = 400, img_height = 300,
                                    img_type = imageType\<rparr>),
                        requests @ [url])))))"

text \<open>\<open>fetchImage\<close>: the \<open>try\<close> block under its \<open>catch\<close>, which returns \<open>null\<close>.\<close>

definition fetchImage ::
    "(jsstring \<Rightarrow> jsstring) \<Rightarrow> network \<Rightarrow> jsstring list \<Rightarrow> jsstring
      \<Rightarrow> (exn + embeddedImage option) \<times> jsstring list" where
  "fetchImage toLowerCase net requests url =
     (case fetchImageTry toLowerCase net requests url of
        (Inl error, requests') \<Rightarrow> (Inr None, requests')
      | (Inr result, requests') \<Rightarrow> (Inr result, requests'))"


section \<open>Tokens of the external lexer\<close>

text \<open>
  The tokens that \<open>marked.lexer\<close> hands to the converter, with the fields the converter
  reads. A list item has \<open>task\<close>, \<open>checked\<close> (possibly \<open>undefined\<close>), \<open>text\<close> and
  \<open>tokens\<close> (possibly \<open>undefined\<close>). \<open>OtherTok\<close> is a token of any other type, which
  the \<open>switch\<close> sends to its \<open>default\<close> branch.
\<close>

datatype token =
    HeadingTok nat jsstring
  | ParagraphTok jsstring
  | ListTok bool "listItem list"
  | BlockquoteTok "token list"
  | CodeTok jsstring
  | HrTok
  | TableTok "jsstring list" "jsstring list list"
  | SpaceTok
  | ImageTok jsstring "jsstring option" jsstring
  | OtherTok string
and listItem =
    ListItem bool "bool option" jsstring "token list option"

fun tokenType :: "token \<Rightarrow> string" where
  "tokenType (HeadingTok depth tx) = ''heading''"
| "tokenType (ParagraphTok tx) = ''paragraph''"
| "tokenType (ListTok ordered items) = ''list''"
| "tokenType (BlockquoteTok tokens) = ''blockquote''"
| "tokenType (CodeTok tx) = ''code''"
| "tokenType HrTok = ''hr''"
| "tokenType (TableTok header rows) = ''table''"
| "tokenType SpaceTok = ''space''"
| "tokenType (ImageTok href title tx) = ''image''"
| "tokenType (OtherTok ty) = ty"

section \<open>Paragraphs of the encoder\<close>

record spacing =
  before :: nat
  after :: nat
  line :: "nat option"
  lineRule :: "string option"

record border =
  side :: string
  b_color :: string
  b_space :: nat
  b_style :: string
  b_size :: nat

record imageRun =
  ir_type :: imageType
  ir_data :: bytes
  ir_width :: nat
  ir_height :: nat
  alt_title :: jsstring
  alt_description :: jsstring
  alt_name :: jsstring

text \<open>A table cell holds one paragraph of runs, with its spacing and its shading.\<close>

record tableCell =
  cell_runs :: "inline list"
  cell_spacing :: spacing
  cell_fill :: "string option"

datatype child =
    Inline inline
  | ImageRun imageRun
  | TableEl "tableCell list list"

text \<open>The options of a \<open>Paragraph\<close>; an option that the code leaves out is \<open>None\<close>.\<close>

record docParagraph =
  p_text :: "jsstring option"
  p_heading :: "nat option"
  p_children :: "child list option"
  p_spacing :: "spacing option"
  p_numbering :: "(string \<times> nat) option"
  p_bullet :: "nat option"
  p_indent :: "(nat \<times> nat option) option"
  p_border :: "border option"
  p_shading :: "(string option \<times> string) option"
  p_alignment :: "string option"

definition mkSpacing :: "nat \<Rightarrow> nat \<Rightarrow> spacing" where
  "mkSpacing b a = \<lparr>before = b, after = a, line = None, lineRule = None\<rparr>"

definition lineSpacing :: "nat \<Rightarrow> nat \<Rightarrow> spacing" where
  "lineSpacing b a = \<lparr>before = b, after = a, line = Some 300, lineRule = Some ''auto''\<rparr>"

text \<open>A paragraph with its spacing only; the cases below set the other options.\<close>

definition emptyParagraph :: "spacing \<Rightarrow> docParagraph" where
  "emptyParagraph sp =
     \<lparr>p_text = None, p_heading = None, p_children = None, p_spacing = Some sp,
      p_numbering = None, p_bullet = None, p_indent = None, p_border = None,
      p_shading = None, p_alignment = None\<rparr>"

text \<open>The extra paragraph pushed between blocks of different types.\<close>

definition spacerParagraph :: docParagraph where
  "spacerParagraph = emptyParagraph (mkSpacing 80 80)"

text \<open>\<open>headingLevelMap[depth]\<close>: defined for the depths 1 to 6.\<close>

definition headingLevelMap :: "nat \<Rightarrow> nat option" where
  "headingLevelMap depth = (if 1 \<le> depth \<and> depth \<le> 6 then Some depth else None)"

section \<open>Images in the block transformer\<close>

text \<open>
  The paragraphs pushed for an image, shared by the image-only paragraph and the image
  token: \<open>alt\<close> is the alternative text, \<open>title\<close> the title of the image run.
\<close>

definition embeddedParagraphs ::
    "embeddedImage \<Rightarrow> jsstring \<Rightarrow> jsstring \<Rightarrow> docParagraph list" where
  "embeddedParagraphs imageData title alt =
     [(emptyParagraph (mkSpacing 100 100))
        \<lparr>p_children := Some
           [ImageRun \<lparr>ir_type = img_type imageData, ir_data = img_data imageData,
                      ir_width = img_width imageData, ir_height = img_height imageData,
                      alt_title = title,
                      alt_description = orElse alt (js ''Embedded image''),
                      alt_name = orElse alt (js ''image'')\<rparr>]\<rparr>]
     @ (if alt \<noteq> [] then
          [(emptyParagraph (mkSpacing 40 80))
             \<lparr>p_children := Some
                [Inline (TextRun ((plainRun alt)
                   \<lparr>size_r := 20, italics := True, color := Some ''666666''\<rparr>))],
              p_alignment := Some ''center''\<rparr>]
        else [])"

text \<open>The picture-frame emoji U+1F5BC (a surrogate pair) and a space.\<close>

definition frameEmoji :: jsstring where
  "frameEmoji = [0xD83D, 0xDDBC, 0x20]"

definition fallbackParagraph :: "jsstring \<Rightarrow> jsstring \<Rightarrow> docParagraph" where
  "fallbackParagraph alt url =
     (emptyParagraph (mkSpacing 60 60))
       \<lparr>p_children := Some
          [Inline (TextRun (plainRun frameEmoji)),
           Inline (ExternalHyperlink [linkRun (orElse alt (js ''Image''))] url),
           Inline (TextRun ((plainRun (js '' (could not embed)''))
              \<lparr>size_r := 20, color := Some ''999999''\<rparr>))]\<rparr>"

text \<open>
  The test for a paragraph that is one image,
  \<^verbatim>\<open>paragraphToken.text.match(/^!\[([^\]]*)\]\(([^)]+)\)$/)\<close>. The expression starts
  with \<open>^\<close> and has no \<open>m\<close> flag, so a match can only start at index 0: the rest of the
  expression is run on the whole text. The result is the pair of captures 1 and 2.
\<close>

definition imageRx :: rx where
  "imageRx =
     Seq (Atom (Lit (ch CHR ''!'')))
      (Seq (Atom (Lit (ch CHR ''['')))
        (Seq (Group 1 (GreedyStar (NotChar (ch CHR '']''))))
          (Seq (Atom (Lit (ch CHR '']'')))
            (Seq (Atom (Lit (ch CHR ''('')))
              (Seq (Group 2 (GreedyPlus (NotChar (ch CHR '')''))))
                (Seq (Atom (Lit (ch CHR '')''))) Eoi))))))"

definition imageMatch :: "jsstring \<Rightarrow> (jsstring \<times> jsstring) option" where
  "imageMatch tx =
     (case run imageRx tx Map.empty of
        [] \<Rightarrow> None
      | (rest, k) # _ \<Rightarrow>
          (case (k 1, k 2) of
             (Some altText, Some imageUrl) \<Rightarrow> Some (altText, imageUrl)
           | _ \<Rightarrow> None))"

section \<open>The list materializer\<close>

text \<open>The runs of one item: the checkbox of a task item, then the parsed text.\<close>

definition checkedBox :: jsstring where
  "checkedBox = [0x2611, 0x20]"

definition uncheckedBox :: jsstring where
  "uncheckedBox = [0x2610, 0x20]"

fun itemRuns :: "listItem \<Rightarrow> inline list" where
  "itemRuns (ListItem task checked tx tokens) =
     (if task then
        [TextRun (plainRun (if checked = Some True then checkedBox else uncheckedBox))]
      else [])
     @ processFormattedText tx"

definition itemParagraph :: "inline list \<Rightarrow> bool \<Rightarrow> nat \<Rightarrow> bool \<Rightarrow> docParagraph" where
  "itemParagraph runs ordered level isFirstItem =
     (if ordered then
        (emptyParagraph (lineSpacing (if isFirstItem then 80 else 40) 40))
          \<lparr>p_children := Some (map Inline runs),
           p_numbering := Some (''default-numbering'', level)\<rparr>
      else
        (emptyParagraph (lineSpacing (if isFirstItem then 80 else 40) 40))
          \<lparr>p_children := Some (map Inline runs),
           p_bullet := Some level,
           p_indent := Some (720 * (level + 1), Some 360)\<rparr>)"

text \<open>
  \<open>processListItems\<close>. \<open>listLoop\<close> is its \<open>for\<close> loop over the items, with the loop
  variables \<open>itemNum\<close> and \<open>isFirstItem\<close>; \<open>nestedLists\<close> is the inner loop over the
  tokens of an item, which calls \<open>processListItems\<close> on every list token with the
  level raised by one and without a fourth argument, so that \<open>startNum\<close> takes its
  default 1. The functions return the paragraphs they push to \<open>children\<close>, in order.
\<close>

fun listLoop :: "listItem list \<Rightarrow> bool \<Rightarrow> nat \<Rightarrow> nat \<Rightarrow> bool \<Rightarrow> docParagraph list"
and nestedLists :: "token list \<Rightarrow> nat \<Rightarrow> docParagraph list"
where
  "listLoop [] ordered level itemNum isFirstItem = []"
| "listLoop (item # items) ordered level itemNum isFirstItem =
     itemParagraph (itemRuns item) ordered level isFirstItem
     # (case item of
          ListItem task checked tx None \<Rightarrow> []
        | ListItem task checked tx (Some tokens) \<Rightarrow> nestedLists tokens level)
     @ listLoop items ordered level (itemNum + 1) False"
| "nestedLists [] level = []"
| "nestedLists (nestedToken # tokens) level =
     (case nestedToken of
        ListTok ordered items \<Rightarrow> listLoop items ordered (level + 1) 1 (level + 1 = 0)
      | _ \<Rightarrow> [])
     @ nestedLists tokens level"

definition processListItems ::
    "listItem list \<Rightarrow> bool \<Rightarrow> nat \<Rightarrow> nat \<Rightarrow> docParagraph list" where
  "processListItems items ordered level startNum =
     listLoop items ordered level startNum (level = 0)"


section \<open>The block transformer\<close>

text \<open>
  The state of the \<open>for\<close> loop over the tokens in \<open>convertMarkdownToDocx\<close>: the array
  \<open>children\<close>, the variables \<open>lastTokenType\<close> (initially \<open>null\<close>) and
  \<open>consecutiveBreaks\<close>, and the requests made to the network so far.
\<close>

record convState =
  children :: "docParagraph list"
  lastTokenType :: "string option"
  consecutiveBreaks :: nat
  requests :: "jsstring list"

definition initialState :: convState where
  "initialState =
     \<lparr>children = [], lastTokenType = None, consecutiveBreaks = 0, requests = []\<rparr>"

definition push :: "docParagraph list \<Rightarrow> convState \<Rightarrow> convState" where
  "push ps st = st\<lparr>children := children st @ ps\<rparr>"

text \<open>
  The spacing between blocks of different types, at the head of the loop body. The
  test \<open>lastTokenType && \<dots>\<close> fails for \<open>null\<close> and for the empty string.
\<close>

definition spacingStep :: "token \<Rightarrow> convState \<Rightarrow> convState" where
  "spacingStep token st =
     (case lastTokenType st of
        None \<Rightarrow> st
      | Some lastType \<Rightarrow>
          if lastType \<noteq> [] \<and> lastType \<noteq> tokenType token then
            (if tokenType token = ''space'' then
               (let st1 = st\<lparr>consecutiveBreaks := consecutiveBreaks st + 1\<rparr> in
                if consecutiveBreaks st1 \<le> 1 then push [spacerParagraph] st1 else st1)
             else st\<lparr>consecutiveBreaks := 0\<rparr>)
          else st)"

definition headingParagraph :: "nat \<Rightarrow> jsstring \<Rightarrow> docParagraph" where
  "headingParagraph depth tx =
     (emptyParagraph (mkSpacing 200 100))
       \<lparr>p_text := Some tx, p_heading := headingLevelMap depth\<rparr>"

definition textParagraph :: "inline list \<Rightarrow> docParagraph" where
  "textParagraph runs = (emptyParagraph (lineSpacing 60 60))\<lparr>p_children := Some (map Inline runs)\<rparr>"

definition quoteParagraph :: "inline list \<Rightarrow> docParagraph" where
  "quoteParagraph runs =
     (emptyParagraph (lineSpacing 60 60))
       \<lparr>p_children := Some (map Inline runs),
        p_indent := Some (720, None),
        p_border := Some \<lparr>side = ''left'', b_color = ''AAAAAA'', b_space = 15,
                           b_style = ''single'', b_size = 15\<rparr>\<rparr>"

definition codeParagraph :: "jsstring \<Rightarrow> docParagraph" where
  "codeParagraph tx =
     (emptyParagraph (lineSpacing 80 80))
       \<lparr>p_children := Some
          [Inline (TextRun ((plainRun tx)\<lparr>font := ''Courier New'', size_r := 20\<rparr>))],
        p_shading := Some (Some ''clear'', ''F5F5F5'')\<rparr>"

definition hrParagraph :: docParagraph where
  "hrParagraph =
     (emptyParagraph (mkSpacing 120 120))
       \<lparr>p_border := Some \<lparr>side = ''bottom'', b_color = ''AAAAAA'', b_space = 1,
                           b_style = ''single'', b_size = 1\<rparr>\<rparr>"

definition tableParagraph :: "jsstring list \<Rightarrow> jsstring list list \<Rightarrow> docParagraph" where
  "tableParagraph header rows =
     (let headerCells =
            map (\<lambda>cell. \<lparr>cell_runs = processFormattedText cell,
                          cell_spacing = mkSpacing 40 40, cell_fill = Some ''EEEEEE''\<rparr>) header;
          dataRows =
            map (\<lambda>row. map (\<lambda>cell. \<lparr>cell_runs = processFormattedText cell,
                                    cell_spacing = mkSpacing 40 40, cell_fill = None\<rparr>) row) rows
      in (emptyParagraph (mkSpacing 0 0))
           \<lparr>p_spacing := None, p_children := Some [TableEl (headerCells # dataRows)]\<rparr>)"

text \<open>
  What both image cases push after \<open>await fetchImage(url)\<close>: the embedded image when
  the result is an object, the fallback link when it is \<open>null\<close>. A value thrown by
  \<open>fetchImage\<close> would leave the loop.
\<close>

definition imageStep ::
    "(jsstring \<Rightarrow> jsstring) \<Rightarrow> network \<Rightarrow> jsstring \<Rightarrow> jsstring \<Rightarrow> jsstring
      \<Rightarrow> convState \<Rightarrow> exn + convState" where
  "imageStep toLowerCase net url title alt st =
     (case fetchImage toLowerCase net (requests st) url of
        (Inl error, requests') \<Rightarrow> Inl error
      | (Inr (Some imageData), requests') \<Rightarrow>
          Inr (push (embeddedParagraphs imageData title alt) (st\<lparr>requests := requests'\<rparr>))
      | (Inr None, requests') \<Rightarrow>
          Inr (push [fallbackParagraph alt url] (st\<lparr>requests := requests'\<rparr>)))"

text \<open>The \<open>switch\<close> on the type of the token.\<close>

fun switchStep ::
    "(jsstring \<Rightarrow> jsstring) \<Rightarrow> network \<Rightarrow> token \<Rightarrow> convState \<Rightarrow> exn + convState" where
  "switchStep toLowerCase net (HeadingTok depth tx) st =
     Inr (push [headingParagraph depth tx] (st\<lparr>consecutiveBreaks := 0\<rparr>))"
| "switchStep toLowerCase net (ParagraphTok tx) st =
     (case imageMatch tx of
        Some (altText, imageUrl) \<Rightarrow>
          imageStep toLowerCase net imageUrl (orElse altText (js ''Image'')) altText
            (st\<lparr>consecutiveBreaks := 0\<rparr>)
      | None \<Rightarrow>
          Inr (push [textParagraph (processFormattedText tx)] (st\<lparr>consecutiveBreaks := 0\<rparr>)))"
| "switchStep toLowerCase net (ListTok ordered items) st =
     Inr (push (processListItems items ordered 0 1) (st\<lparr>consecutiveBreaks := 0\<rparr>))"
| "switchStep toLowerCase net (BlockquoteTok tokens) st =
     Inr (push
           (concat (map (\<lambda>quoteToken.
              case quoteToken of
                ParagraphTok tx \<Rightarrow> [quoteParagraph (processFormattedText tx)]
              | _ \<Rightarrow> []) tokens))
           (st\<lparr>consecutiveBreaks := 0\<rparr>))"
| "switchStep toLowerCase net (CodeTok tx) st =
     Inr (push [codeParagraph tx] (st\<lparr>consecutiveBreaks := 0\<rparr>))"
| "switchStep toLowerCase net HrTok st =
     Inr (push [hrParagraph] (st\<lparr>consecutiveBreaks := 0\<rparr>))"
| "switchStep toLowerCase net (TableTok header rows) st =
     Inr (push [tableParagraph header rows] (st\<lparr>consecutiveBreaks := 0\<rparr>))"
| "switchStep toLowerCase net SpaceTok st = Inr st"
| "switchStep toLowerCase net (ImageTok href title tx) st =
     imageStep toLowerCase net href
       (orElse (case title of None \<Rightarrow> [] | Some t \<Rightarrow> t) (orElse tx (js ''Image''))) tx
       (st\<lparr>consecutiveBreaks := 0\<rparr>)"
| "switchStep toLowerCase net (OtherTok ty) st = Inr (st\<lparr>consecutiveBreaks := 0\<rparr>)"

text \<open>One pass of the loop body, and the loop.\<close>

definition convertStep ::
    "(jsstring \<Rightarrow> jsstring) \<Rightarrow> network \<Rightarrow> token \<Rightarrow> convState \<Rightarrow> exn + convState" where
  "convertStep toLowerCase net token st =
     (case switchStep toLowerCase net token (spacingStep token st) of
        Inl error \<Rightarrow> Inl error
      | Inr st' \<Rightarrow> Inr (st'\<lparr>lastTokenType := Some (tokenType token)\<rparr>))"

fun convertLoop ::
    "(jsstring \<Rightarrow> jsstring) \<Rightarrow> network \<Rightarrow> token list \<Rightarrow> convState \<Rightarrow> exn + convState" where
  "convertLoop toLowerCase net [] st = Inr st"
| "convertLoop toLowerCase net (token # tokens) st =
     (case convertStep toLowerCase net token st of
        Inl error \<Rightarrow> Inl error
      | Inr st' \<Rightarrow> convertLoop toLowerCase net tokens st')"

text \<open>
  The part of \<open>convertMarkdownToDocx\<close> between the lexer and the encoder: the loop run
  from the initial state on the tokens of the document.
\<close>

definition convertTokens ::
    "(jsstring \<Rightarrow> jsstring) \<Rightarrow> network \<Rightarrow> token list \<Rightarrow> exn + convState" where
  "convertTokens toLowerCase net tokens = convertLoop toLowerCase net tokens initialState"


section \<open>Items and spacers counted\<close>

text \<open>
  The items of a list in the order in which \<open>processListItems\<close> reaches them: an item,
  then the items of the lists among its tokens, then the items after it.
\<close>

fun flattenItems :: "listItem list \<Rightarrow> listItem list"
and flattenTokens :: "token list \<Rightarrow> listItem list"
where
  "flattenItems [] = []"
| "flattenItems (item # items) =
     item
     # (case item of
          ListItem task checked tx None \<Rightarrow> []
        | ListItem task checked tx (Some tokens) \<Rightarrow> flattenTokens tokens)
     @ flattenItems items"
| "flattenTokens [] = []"
| "flattenTokens (nestedToken # tokens) =
     (case nestedToken of
        ListTok ordered items \<Rightarrow> flattenItems items
      | _ \<Rightarrow> [])
     @ flattenTokens tokens"

text \<open>The number of spacer paragraphs among the children.\<close>

definition spacers :: "docParagraph list \<Rightarrow> nat" where
  "spacers ps = length (filter (\<lambda>p. p = spacerParagraph) ps)"

text \<open>
  The number of maximal runs of consecutive space tokens in a token list; \<open>prevSpace\<close>
  says whether the token before the list is a space token.
\<close>

fun spaceRuns :: "bool \<Rightarrow> token list \<Rightarrow> nat" where
  "spaceRuns prevSpace [] = 0"
| "spaceRuns prevSpace (token # tokens) =
     (if tokenType token = ''space'' \<and> \<not> prevSpace then 1 else 0)
     + spaceRuns (tokenType token = ''space'') tokens"

text \<open>
  The number of those runs that come after a token whose type is not empty; \<open>prev\<close>
  is the type of the token before the list, if any.
\<close>

fun precededRuns :: "string option \<Rightarrow> token list \<Rightarrow> nat" where
  "precededRuns prev [] = 0"
| "precededRuns prev (token # tokens) =
     (if tokenType token = ''space''
         \<and> (case prev of None \<Rightarrow> False | Some ty \<Rightarrow> ty \<noteq> [] \<and> ty \<noteq> ''space'')
      then 1 else 0)
     + precededRuns (Some (tokenType token)) tokens"

text \<open>
  The loop keeps \<open>consecutiveBreaks\<close> at 0 except after a space token.
\<close>

definition breaksInvariant :: "convState \<Rightarrow> bool" where
  "breaksInvariant st = (lastTokenType st = Some ''space'' \<or> consecutiveBreaks st = 0)"

text \<open>The test \<open>lastTokenType && lastTokenType !== token.type\<close>.\<close>

definition kindChange :: "string option \<Rightarrow> token \<Rightarrow> bool" where
  "kindChange prev token =
     (case prev of None \<Rightarrow> False | Some ty \<Rightarrow> ty \<noteq> [] \<and> ty \<noteq> tokenType token)"


section \<open>Upload to the document service\<close>

text \<open>
  \<open>convertMarkdownToGoogleDoc\<close>. The converter \<open>convertMarkdownToDocx\<close> is reached only
  through the lexer and the encoder, and the upload through the drive client, so both
  are parameters: \<open>convert\<close> returns the buffer or throws (\<open>Inl\<close>), \<open>create\<close> is
  \<open>drive.files.create\<close> and returns the identifier of the new document, if any, or
  throws. The later \<open>drive.files.get\<close> only logs and its failure is caught.
\<close>

record googleDocResponse =
  r_documentId :: jsstring
  r_url :: jsstring
  r_status :: nat
  r_fileName :: jsstring

datatype uploadError =
    ConverterError string
  | EmptyBuffer
  | DriveError string
  | NoDocumentId

definition fenceMarkdown :: jsstring where
  "fenceMarkdown = js ''```markdown'' @ [0x0A]"

definition fenceGeneric :: jsstring where
  "fenceGeneric = js ''```'' @ [0x0A]"

definition fenceEnd :: jsstring where
  "fenceEnd = js ''```''"

definition convertMarkdownToGoogleDoc ::
    "(jsstring \<Rightarrow> string + bytes) \<Rightarrow> (jsstring \<Rightarrow> jsstring \<Rightarrow> bytes \<Rightarrow> string + jsstring option)
      \<Rightarrow> jsstring \<Rightarrow> jsstring \<Rightarrow> jsstring
      \<Rightarrow> uploadError + googleDocResponse" where
  "convertMarkdownToGoogleDoc convert create markdownContent accessToken name =
     (let markdownContent1 =
            (if startsWith markdownContent fenceMarkdown \<and> endsWith markdownContent fenceEnd
             then substring markdownContent (length fenceMarkdown) (length markdownContent - 3)
             else if startsWith markdownContent fenceGeneric \<and> endsWith markdownContent fenceEnd
             then substring markdownContent (length fenceGeneric) (length markdownContent - 3)
             else markdownContent)
      in
      case convert markdownContent1 of
        Inl message \<Rightarrow> Inl (ConverterError message)
      | Inr docxBuffer \<Rightarrow>
          if length docxBuffer = 0 then Inl EmptyBuffer
          else
            (case create accessToken name docxBuffer of
               Inl message \<Rightarrow> Inl (DriveError message)
             | Inr None \<Rightarrow> Inl NoDocumentId
             | Inr (Some ident) \<Rightarrow>
                 if ident = [] then Inl NoDocumentId
                 else Inr \<lparr>r_documentId = ident,
                           r_url = js ''https://docs.google.com/document/d/'' @ ident,
                           r_status = 200, r_fileName = name\<rparr>))"

text \<open>
  What it is for a string \<open>markdownContent\<close> to be converted and uploaded: lines 35
  to 111 of the function read on their own, with \<open>markdownContent\<close> as the argument
  of \<open>convertMarkdownToDocx\<close>. The outcome is the converter's error when it throws on
  that string, and otherwise is made from the buffer it returns for that string.
\<close>

definition converted ::
    "(jsstring \<Rightarrow> string + bytes) \<Rightarrow> (jsstring \<Rightarrow> jsstring \<Rightarrow> bytes \<Rightarrow> string + jsstring option)
      \<Rightarrow> jsstring \<Rightarrow> jsstring \<Rightarrow> jsstring \<Rightarrow> uploadError + googleDocResponse" where
  "converted convert create markdownContent accessToken name =
     (case convert markdownContent of
        Inl message \<Rightarrow> Inl (ConverterError message)
      | Inr docxBuffer \<Rightarrow>
          if length docxBuffer = 0 then Inl EmptyBuffer
          else
            (case create accessToken name docxBuffer of
               Inl message \<Rightarrow> Inl (DriveError message)
             | Inr None \<Rightarrow> Inl NoDocumentId
             | Inr (Some ident) \<Rightarrow>
                 if ident = [] then Inl NoDocumentId
                 else Inr \<lparr>r_documentId = ident,
                           r_url = js ''https://docs.google.com/document/d/'' @ ident,
                           r_status = 200, r_fileName = name\<rparr>))"


section \<open>Facts about the image resolver and the upload\<close>

lemma includes_str_append: "includes_str (q @ p @ r) p"
proof (induction q)
  case Nil
  show ?case using startsWith_same[of p r] by (cases "p @ r") auto
next
  case (Cons c q)
  then show ?case by simp
qed

lemma endsWith_includes: "endsWith s p \<Longrightarrow> includes_str s p"
proof -
  assume "endsWith s p"
  then have "s = take (length s - length p) s @ p @ []"
    by (simp add: endsWith_def) (metis append_take_drop_id)
  then show ?thesis using includes_str_append[of "take (length s - length p) s" p "[]"] by simp
qed

lemma fetchImage_svg:
  "includes_str (toLowerCase url) (js ''.svg'') \<Longrightarrow>
     fetchImage toLowerCase net rq url = (Inr None, rq)"
  by (simp add: fetchImage_def fetchImageTry_def)

lemma fetchImage_never_raises:
  "\<exists>result rq'. fetchImage toLowerCase net rq url = (Inr result, rq')"
  by (cases "fetchImageTry toLowerCase net rq url")
     (auto simp: fetchImage_def split: sum.splits)

lemma fetchImage_failures:
  "(includes_str (toLowerCase url) (js ''.svg'') \<longrightarrow>
       fetchImage toLowerCase net rq url = (Inr None, rq))
   \<and> (\<not> includes_str (toLowerCase url) (js ''.svg'') \<and> net rq url = None \<longrightarrow>
       fetchImage toLowerCase net rq url = (Inr None, rq @ [url]))
   \<and> (\<not> includes_str (toLowerCase url) (js ''.svg'') \<and> net rq url = Some response
        \<and> (\<not> ok response \<or> arrayBuffer response = None
             \<or> includes_str (orElse (case contentTypeHeader response of None \<Rightarrow> [] | Some h \<Rightarrow> h) [])
                  (js ''svg'')) \<longrightarrow>
       fetchImage toLowerCase net rq url = (Inr None, rq @ [url]))"
  by (auto simp: fetchImage_def fetchImageTry_def Let_def split: option.splits)

lemma children_spacingStep:
  "tokenType token \<noteq> ''space'' \<Longrightarrow> children (spacingStep token st) = children st"
  by (simp add: spacingStep_def split: option.splits)

lemma requests_spacingStep: "requests (spacingStep token st) = requests st"
  by (simp add: spacingStep_def push_def Let_def split: option.splits)

lemma imageStep_fallback:
  assumes "fst (fetchImage toLowerCase net (requests st) url) = Inr None"
  shows "\<exists>st'. imageStep toLowerCase net url title alt st = Inr st'
           \<and> children st' = children st @ [fallbackParagraph alt url]"
  using assms
  by (cases "fetchImage toLowerCase net (requests st) url")
     (auto simp: imageStep_def push_def)

lemma detectImageType_range:
  "detectImageType toLowerCase u ct \<in> {png, jpg, gif, bmp}"
  by (cases "detectImageType toLowerCase u ct") auto

lemma fetchImage_dimensions:
  "fetchImage toLowerCase net rq u = (Inr (Some img), rq') \<Longrightarrow>
     img_width img = 400 \<and> img_height img = 300
     \<and> img_type img \<in> {png, jpg, gif, bmp}"
  by (cases "img_type img")
     (auto simp: fetchImage_def fetchImageTry_def Let_def split: option.splits if_splits)

lemma endsWith_iff: "endsWith s e \<longleftrightarrow> (\<exists>q. s = q @ e)"
proof
  assume "endsWith s e"
  then have "s = take (length s - length e) s @ e"
    by (simp add: endsWith_def) (metis append_take_drop_id)
  then show "\<exists>q. s = q @ e" ..
next
  assume "\<exists>q. s = q @ e"
  then show "endsWith s e" by (auto simp: endsWith_def)
qed

lemma fence_decomp:
  assumes "startsWith md (p @ [0x0A])" "endsWith md fenceEnd"
  shows "\<exists>inner. md = (p @ [0x0A]) @ inner @ fenceEnd"
proof -
  from assms(1) obtain r where r: "md = (p @ [0x0A]) @ r"
    by (auto simp: startsWith_append)
  from assms(2) obtain q where q: "md = q @ fenceEnd"
    by (auto simp: endsWith_iff)
  have e: "rev fenceEnd = [ch CHR ''`'', ch CHR ''`'', ch CHR ''`'']"
    by (simp add: fenceEnd_def js_def)
  have nl: "(0x0A :: jschar) \<noteq> ch CHR ''`''" by (simp add: ch_def)
  from r q have "rev ((p @ [0x0A]) @ r) = rev (q @ fenceEnd)" by simp
  then have "rev r @ [0x0A] @ rev p = rev fenceEnd @ rev q" by simp
  then have eq: "rev r @ [0x0A] @ rev p = [ch CHR ''`'', ch CHR ''`'', ch CHR ''`''] @ rev q"
    unfolding e .
  have "\<exists>inner. r = inner @ fenceEnd"
  proof (cases "rev r")
    case Nil
    with eq nl show ?thesis by simp
  next
    case c1: (Cons a as)
    show ?thesis
    proof (cases as)
      case Nil
      with c1 eq nl show ?thesis by simp
    next
      case c2: (Cons b bs)
      show ?thesis
      proof (cases bs)
        case Nil
        with c1 c2 eq nl show ?thesis by simp
      next
        case c3: (Cons c cs)
        with c1 c2 eq have "rev r = rev fenceEnd @ cs" unfolding e by simp
        then have "rev (rev r) = rev (rev fenceEnd @ cs)" by simp
        then have "r = rev cs @ fenceEnd" by simp
        then show ?thesis ..
      qed
    qed
  qed
  with r show ?thesis by auto
qed

lemma substring_inner:
  "substring (p @ inner @ e) (length p) (length (p @ inner @ e) - length e) = inner"
  by (simp add: substring_def Let_def)

lemma fenceEnd_length: "length fenceEnd = 3"
  by (simp add: fenceEnd_def js_def)

lemma not_both_fences:
  assumes "startsWith md fenceMarkdown"
  shows "\<not> startsWith md fenceGeneric"
proof
  assume "startsWith md fenceGeneric"
  then obtain r2 where r2: "md = fenceGeneric @ r2" by (auto simp: startsWith_append)
  from assms obtain r1 where "md = fenceMarkdown @ r1" by (auto simp: startsWith_append)
  with r2 have "fenceMarkdown @ r1 = fenceGeneric @ r2" by simp
  then show False by (simp add: fenceMarkdown_def fenceGeneric_def js_def ch_def)
qed

lemma fence_iff:
  "(startsWith md (p @ [0x0A]) \<and> endsWith md fenceEnd)
     \<longleftrightarrow> (\<exists>x. md = (p @ [0x0A]) @ x @ fenceEnd)"
proof
  assume "startsWith md (p @ [0x0A]) \<and> endsWith md fenceEnd"
  then show "\<exists>x. md = (p @ [0x0A]) @ x @ fenceEnd" using fence_decomp by blast
next
  assume "\<exists>x. md = (p @ [0x0A]) @ x @ fenceEnd"
  then obtain x where x: "md = (p @ [0x0A]) @ x @ fenceEnd" ..
  have "startsWith ((p @ [0x0A]) @ x @ fenceEnd) (p @ [0x0A])" by (rule startsWith_same)
  moreover have "endsWith (((p @ [0x0A]) @ x) @ fenceEnd) fenceEnd" by (rule endsWith_append)
  ultimately show "startsWith md (p @ [0x0A]) \<and> endsWith md fenceEnd"
    unfolding x by simp
qed

lemma run_Group_GreedyStar_Lit:
  "run (Seq (Group n (GreedyStar (NotChar a))) (Seq (Atom (Lit a)) r)) s k =
     (case dropWhile (\<lambda>c. c \<noteq> a) s of
        [] \<Rightarrow> []
      | x # rest \<Rightarrow> run r rest (k(n \<mapsto> takeWhile (\<lambda>c. c \<noteq> a) s)))"
proof -
  define G where "G s1 = run r (tl s1) (k(n \<mapsto> take (length s - length s1) s))" for s1
  have "run (Seq (Group n (GreedyStar (NotChar a))) (Seq (Atom (Lit a)) r)) s k =
        concat (map (\<lambda>s1. run (Seq (Atom (Lit a)) r) s1 (k(n \<mapsto> take (length s - length s1) s)))
               (greedyStar (NotChar a) s))"
    by (simp add: comp_def)
  also have "(\<lambda>s1. run (Seq (Atom (Lit a)) r) s1 (k(n \<mapsto> take (length s - length s1) s)))
    = (\<lambda>s1. case s1 of [] \<Rightarrow> [] | x # xs \<Rightarrow> if x = a then G (x # xs) else [])"
    by (auto simp: fun_eq_iff G_def split: list.splits)
  also have "concat (map (\<lambda>s1. case s1 of [] \<Rightarrow> [] | x # xs \<Rightarrow> if x = a then G (x # xs) else [])
               (greedyStar (NotChar a) s))
     = (case dropWhile (\<lambda>c. c \<noteq> a) s of [] \<Rightarrow> [] | x # xs \<Rightarrow> G (x # xs))"
    by (rule greedyStar_NotChar)
  also have "\<dots> = (case dropWhile (\<lambda>c. c \<noteq> a) s of
        [] \<Rightarrow> []
      | x # rest \<Rightarrow> run r rest (k(n \<mapsto> takeWhile (\<lambda>c. c \<noteq> a) s)))"
  proof (cases "dropWhile (\<lambda>c. c \<noteq> a) s")
    case Nil
    then show ?thesis by (simp only: list.case)
  next
    case (Cons x xs)
    have "take (length s - length (x # xs)) s = takeWhile (\<lambda>c. c \<noteq> a) s"
      using take_length_dropWhile[of s "\<lambda>c. c \<noteq> a"] unfolding Cons .
    then show ?thesis unfolding Cons by (simp only: list.case G_def list.sel)
  qed
  finally show ?thesis .
qed

lemma imageMatch_found:
  assumes "ch CHR '']'' \<notin> set alt" "u \<noteq> []" "ch CHR '')'' \<notin> set u"
  shows "imageMatch (js ''!['' @ alt @ js '']('' @ u @ js '')'') = Some (alt, u)"
proof -
  have tw: "takeWhile (\<lambda>c. c \<noteq> ch CHR '']'') (alt @ ch CHR '']'' # rest) = alt"
    "dropWhile (\<lambda>c. c \<noteq> ch CHR '']'') (alt @ ch CHR '']'' # rest) = ch CHR '']'' # rest"
    for rest
  proof -
    from assms(1) have all: "\<forall>c \<in> set alt. c \<noteq> ch CHR '']''" by auto
    then show "takeWhile (\<lambda>c. c \<noteq> ch CHR '']'') (alt @ ch CHR '']'' # rest) = alt"
      by (simp add: takeWhile_tail)
    from all show "dropWhile (\<lambda>c. c \<noteq> ch CHR '']'') (alt @ ch CHR '']'' # rest)
        = ch CHR '']'' # rest"
      by (simp add: dropWhile_append3)
  qed
  have br: "bracketed (ch CHR '')'') (u @ [ch CHR '')'']) = Some (u, [])"
    using bracketed_found[OF assms(2,3), of "[]"] by simp
  have "run imageRx (js ''!['' @ alt @ js '']('' @ u @ js '')'') Map.empty
          = [([], [1 \<mapsto> alt, 2 \<mapsto> u])]"
    unfolding imageRx_def
    by (simp only: run_Seq_Lit run_Group_GreedyStar_Lit run_Group_GreedyPlus_Lit)
       (simp add: js_def tw br)
  then show ?thesis by (simp add: imageMatch_def)
qed


section \<open>Facts about lists and spacing\<close>

lemma p_children_itemParagraph:
  "p_children (itemParagraph runs ordered level isFirstItem) = Some (map Inline runs)"
  by (simp add: itemParagraph_def emptyParagraph_def)

lemma listLoop_children:
  "map p_children (listLoop items ordered level itemNum isFirstItem)
     = map (\<lambda>item. Some (map Inline (itemRuns item))) (flattenItems items)"
  "map p_children (nestedLists tokens level)
     = map (\<lambda>item. Some (map Inline (itemRuns item))) (flattenTokens tokens)"
proof (induction items ordered level itemNum isFirstItem and tokens level
    rule: listLoop_nestedLists.induct)
  case (1 ordered level itemNum isFirstItem)
  show ?case by simp
next
  case (2 item items ordered level itemNum isFirstItem)
  then show ?case
    by (cases item) (auto simp: p_children_itemParagraph split: option.splits)
next
  case (3 level)
  show ?case by simp
next
  case (4 nestedToken tokens level)
  then show ?case by (cases nestedToken) auto
qed

text \<open>
  The loop variable \<open>itemNum\<close> is written and never read: the paragraphs pushed do
  not depend on it, and so not on \<open>startNum\<close>. A paragraph of an ordered list carries
  the numbering reference and the level, a paragraph of a bullet list the level, and
  neither carries a number.
\<close>

lemma listLoop_itemNum:
  "listLoop items ordered level itemNum isFirstItem
     = listLoop items ordered level itemNum' isFirstItem"
  by (induction items arbitrary: itemNum itemNum' isFirstItem) auto

lemma processListItems_startNum:
  "processListItems items ordered level startNum
     = processListItems items ordered level startNum'"
  unfolding processListItems_def by (rule listLoop_itemNum)

lemma itemParagraph_numbering:
  "p_numbering (itemParagraph runs ordered level isFirstItem)
     = (if ordered then Some (''default-numbering'', level) else None)"
  "p_bullet (itemParagraph runs ordered level isFirstItem)
     = (if ordered then None else Some level)"
  by (simp_all add: itemParagraph_def emptyParagraph_def)

lemma spacers_append [simp]: "spacers (xs @ ys) = spacers xs + spacers ys"
  by (simp add: spacers_def)

lemma spacers_Nil [simp]: "spacers [] = 0"
  by (simp add: spacers_def)

lemma spacers_single_spacer [simp]: "spacers [spacerParagraph] = 1"
  by (simp add: spacers_def)

lemma spacers_none: "\<forall>p \<in> set ps. p \<noteq> spacerParagraph \<Longrightarrow> spacers ps = 0"
  by (simp add: spacers_def filter_empty_conv)

lemma children_not_spacer: "p_children p \<noteq> None \<Longrightarrow> p \<noteq> spacerParagraph"
  by (auto simp: spacerParagraph_def emptyParagraph_def)

lemma listLoop_not_spacer:
  "\<forall>p \<in> set (listLoop items ordered level itemNum isFirstItem). p_children p \<noteq> None"
  "\<forall>p \<in> set (nestedLists tokens level). p_children p \<noteq> None"
proof (induction items ordered level itemNum isFirstItem and tokens level
    rule: listLoop_nestedLists.induct)
  case (2 item items ordered level itemNum isFirstItem)
  then show ?case
    by (cases item) (auto simp: itemParagraph_def emptyParagraph_def split: option.splits)
next
  case (4 nestedToken tokens level)
  then show ?case by (cases nestedToken) auto
qed simp_all

lemma spacers_list: "spacers (processListItems items ordered level startNum) = 0"
proof (rule spacers_none, rule ballI)
  fix p assume "p \<in> set (processListItems items ordered level startNum)"
  with listLoop_not_spacer(1)[of items ordered level startNum "level = 0"]
  have "p_children p \<noteq> None" by (simp add: processListItems_def)
  then show "p \<noteq> spacerParagraph" by (rule children_not_spacer)
qed

lemma spacers_embedded: "spacers (embeddedParagraphs imageData title alt) = 0"
  by (intro spacers_none)
     (auto simp: embeddedParagraphs_def emptyParagraph_def spacerParagraph_def)

lemma spacers_fallback: "spacers [fallbackParagraph alt u] = 0"
  by (intro spacers_none)
     (auto simp: fallbackParagraph_def emptyParagraph_def spacerParagraph_def)

lemma spacers_quotes:
  "spacers (concat (map (\<lambda>quoteToken. case quoteToken of
       ParagraphTok tx \<Rightarrow> [quoteParagraph (processFormattedText tx)] | _ \<Rightarrow> []) tokens)) = 0"
  by (intro spacers_none)
     (auto simp: quoteParagraph_def emptyParagraph_def spacerParagraph_def split: token.splits)

lemma spacers_simple:
  "spacers [headingParagraph depth tx] = 0"
  "spacers [textParagraph runs] = 0"
  "spacers [codeParagraph tx] = 0"
  "spacers [hrParagraph] = 0"
  "spacers [tableParagraph header rows] = 0"
  by (simp_all add: spacers_def headingParagraph_def textParagraph_def codeParagraph_def
      hrParagraph_def tableParagraph_def emptyParagraph_def spacerParagraph_def Let_def)

lemma imageStep_spacers:
  "\<exists>st'. imageStep toLowerCase net u title alt st = Inr st'
     \<and> spacers (children st') = spacers (children st)
     \<and> consecutiveBreaks st' = consecutiveBreaks st
     \<and> lastTokenType st' = lastTokenType st"
proof -
  from fetchImage_never_raises[of toLowerCase net "requests st" u]
  obtain result rq' where f: "fetchImage toLowerCase net (requests st) u = (Inr result, rq')"
    by blast
  show ?thesis
    by (cases result) (simp_all add: imageStep_def f push_def spacers_embedded spacers_fallback)
qed

lemma switchStep_spacers:
  "\<exists>st'. switchStep toLowerCase net token st = Inr st'
     \<and> spacers (children st') = spacers (children st)
     \<and> lastTokenType st' = lastTokenType st
     \<and> consecutiveBreaks st' = (if token = SpaceTok then consecutiveBreaks st else 0)"
proof (cases token)
  case (ParagraphTok tx)
  show ?thesis
  proof (cases "imageMatch tx")
    case None
    with ParagraphTok show ?thesis by (simp add: push_def spacers_simple)
  next
    case (Some a)
    obtain alt u where a: "a = (alt, u)" by (cases a)
    from imageStep_spacers[of toLowerCase net u "orElse alt (js ''Image'')" alt
        "st\<lparr>consecutiveBreaks := 0\<rparr>"]
    show ?thesis using ParagraphTok Some a by auto
  qed
next
  case (ImageTok href title tx)
  from imageStep_spacers[of toLowerCase net href
      "orElse (case title of None \<Rightarrow> [] | Some t \<Rightarrow> t) (orElse tx (js ''Image''))" tx
      "st\<lparr>consecutiveBreaks := 0\<rparr>"]
  show ?thesis using ImageTok by auto
qed (simp_all add: push_def spacers_simple spacers_list spacers_quotes)

lemma spacingStep_facts:
  "lastTokenType (spacingStep token st) = lastTokenType st"
  "requests (spacingStep token st) = requests st"
  "children (spacingStep token st) =
     children st @ (if tokenType token = ''space'' \<and> kindChange (lastTokenType st) token
                       \<and> consecutiveBreaks st + 1 \<le> 1
                    then [spacerParagraph] else [])"
  "consecutiveBreaks (spacingStep token st) =
     (if kindChange (lastTokenType st) token then
        (if tokenType token = ''space'' then consecutiveBreaks st + 1 else 0)
      else consecutiveBreaks st)"
  by (auto simp: spacingStep_def kindChange_def push_def Let_def split: option.splits)

lemma convertStep_facts:
  "\<exists>st'. convertStep toLowerCase net token st = Inr st'
     \<and> lastTokenType st' = Some (tokenType token)
     \<and> spacers (children st') =
         spacers (children st)
         + (if tokenType token = ''space'' \<and> kindChange (lastTokenType st) token
               \<and> consecutiveBreaks st + 1 \<le> 1 then 1 else 0)
     \<and> consecutiveBreaks st' =
         (if token = SpaceTok then consecutiveBreaks (spacingStep token st) else 0)"
proof -
  from switchStep_spacers[of toLowerCase net token "spacingStep token st"]
  obtain st2 where st2: "switchStep toLowerCase net token (spacingStep token st) = Inr st2"
    "spacers (children st2) = spacers (children (spacingStep token st))"
    "consecutiveBreaks st2 =
       (if token = SpaceTok then consecutiveBreaks (spacingStep token st) else 0)"
    by blast
  then show ?thesis
    by (simp add: convertStep_def spacingStep_facts(3))
qed

lemma convertStep_invariant:
  assumes "breaksInvariant st"
  shows "\<exists>st'. convertStep toLowerCase net token st = Inr st'
     \<and> lastTokenType st' = Some (tokenType token)
     \<and> spacers (children st') =
         spacers (children st) + precededRuns (lastTokenType st) [token]
     \<and> breaksInvariant st'"
proof -
  from convertStep_facts[of toLowerCase net token st]
  obtain st' where st': "convertStep toLowerCase net token st = Inr st'"
    "lastTokenType st' = Some (tokenType token)"
    "spacers (children st') =
         spacers (children st)
         + (if tokenType token = ''space'' \<and> kindChange (lastTokenType st) token
               \<and> consecutiveBreaks st + 1 \<le> 1 then 1 else 0)"
    "consecutiveBreaks st' =
         (if token = SpaceTok then consecutiveBreaks (spacingStep token st) else 0)"
    by blast
  have "spacers (children st') = spacers (children st) + precededRuns (lastTokenType st) [token]"
    using st'(3) assms
    by (auto simp: breaksInvariant_def kindChange_def split: option.splits)
  moreover have "breaksInvariant st'"
    using st'(2,4) by (cases token) (auto simp: breaksInvariant_def)
  ultimately show ?thesis using st'(1,2) by blast
qed

lemma precededRuns_Cons:
  "precededRuns prev (token # tokens)
     = precededRuns prev [token] + precededRuns (Some (tokenType token)) tokens"
  by simp

lemma convertLoop_spacers:
  "breaksInvariant st \<Longrightarrow>
     \<exists>st'. convertLoop toLowerCase net tokens st = Inr st'
       \<and> spacers (children st') = spacers (children st) + precededRuns (lastTokenType st) tokens"
proof (induction tokens arbitrary: st)
  case Nil
  show ?case by simp
next
  case (Cons token tokens)
  from convertStep_invariant[OF Cons.prems, of toLowerCase net token]
  obtain st1 where st1: "convertStep toLowerCase net token st = Inr st1"
    "lastTokenType st1 = Some (tokenType token)"
    "spacers (children st1) = spacers (children st) + precededRuns (lastTokenType st) [token]"
    "breaksInvariant st1" by blast
  from Cons.IH[OF st1(4)] obtain st' where
    "convertLoop toLowerCase net tokens st1 = Inr st'"
    "spacers (children st') = spacers (children st1) + precededRuns (lastTokenType st1) tokens"
    by blast
  with st1 show ?case
    by (simp only: precededRuns_Cons[of _ token tokens] convertLoop.simps) simp
qed

lemma precededRuns_le_spaceRuns:
  "precededRuns prev tokens \<le> spaceRuns (prev = Some ''space'') tokens"
proof (induction tokens arbitrary: prev)
  case Nil
  show ?case by simp
next
  case (Cons token tokens)
  from Cons.IH[of "Some (tokenType token)"] show ?case
    by (auto split: option.splits)
qed


section \<open>The claims\<close>

text \<open>
  C1. Concatenating the literal text of the spans returned by \<open>processFormattedText\<close>,
  in order, gives the input text with the matched marker characters removed.
  \<open>stripMarkers\<close> follows the words of the specification: it scans the text from left
  to right, finds the construct at each position by the five matchers in their priority
  order, keeps the content of a construct without its markers and copies every other
  character. The claim does not say whether the target of a link is literal text of the
  hyperlink span or belongs to the markers of the link: the equation holds both ways
  (\<open>withTarget\<close> true: the target is text on both sides; false: it is on neither).
\<close>

theorem processFormattedText_roundtrip:
  "concat (map (inlineText withTarget) (processFormattedText tx)) = stripMarkers withTarget tx"
  by (rule processFormattedText_text)

theorem processFormattedText_roundtrip_witness:
  "concat (map (inlineText False) (processFormattedText (js ''a **b** [c](d) *e'')))
     = js ''a b c *e''
   \<and> concat (map (inlineText True) (processFormattedText (js ''a **b** [c](d) *e'')))
     = js ''a b cd *e''"
proof -
  have "stripMarkers False (js ''a **b** [c](d) *e'') = js ''a b c *e''"
    "stripMarkers True (js ''a **b** [c](d) *e'') = js ''a b cd *e''"
    by code_simp+
  with processFormattedText_roundtrip[of False "js ''a **b** [c](d) *e''"]
    processFormattedText_roundtrip[of True "js ''a **b** [c](d) *e''"]
  show ?thesis by simp
qed




text \<open>
  C3, amended. \<open>fetchImage\<close> never throws: every call returns, and each failure path
  (an SVG URL, a rejected \<open>fetch\<close>, a response that is not \<open>ok\<close>, an SVG content
  type, a rejected body read) returns \<open>null\<close>. For an image token, and for a paragraph
  that is one image, whose resolution returns \<open>null\<close>, the loop pushes one fallback
  paragraph: the frame emoji, a hyperlink to the original URL, and the marker
  \<open>(could not embed)\<close>. The hyperlink shows the original alternative text when that
  is not empty, and the label \<open>Image\<close> when it is empty. A paragraph is one image
  when its text matches the image pattern; every text \<open>![alt](url)\<close> with \<open>alt\<close>
  free of \<open>]\<close> and \<open>url\<close> not empty and free of \<open>)\<close> does.
\<close>

theorem image_fallback:
  "(\<exists>result rq'. fetchImage toLowerCase net rq url = (Inr result, rq'))
   \<and> (includes_str (toLowerCase url) (js ''.svg'') \<longrightarrow>
        fetchImage toLowerCase net rq url = (Inr None, rq))
   \<and> (\<not> includes_str (toLowerCase url) (js ''.svg'') \<and> net rq url = None \<longrightarrow>
        fetchImage toLowerCase net rq url = (Inr None, rq @ [url]))
   \<and> (\<not> includes_str (toLowerCase url) (js ''.svg'') \<and> net rq url = Some response
        \<and> (\<not> ok response \<or> arrayBuffer response = None
             \<or> includes_str
                  (orElse (case contentTypeHeader response of None \<Rightarrow> [] | Some h \<Rightarrow> h) [])
                  (js ''svg'')) \<longrightarrow>
        fetchImage toLowerCase net rq url = (Inr None, rq @ [url]))
   \<and> (fst (fetchImage toLowerCase net (requests st) url) = Inr None \<longrightarrow>
        (\<exists>st'. convertStep toLowerCase net (ImageTok url title alt) st = Inr st'
           \<and> children st' = children st @ [fallbackParagraph alt url]))
   \<and> (imageMatch tx = Some (alt, url)
        \<and> fst (fetchImage toLowerCase net (requests st) url) = Inr None \<longrightarrow>
        (\<exists>st'. convertStep toLowerCase net (ParagraphTok tx) st = Inr st'
           \<and> children st' = children st @ [fallbackParagraph alt url]))
   \<and> (ch CHR '']'' \<notin> set alt \<and> url \<noteq> [] \<and> ch CHR '')'' \<notin> set url \<longrightarrow>
        imageMatch (js ''!['' @ alt @ js '']('' @ url @ js '')'') = Some (alt, url))
   \<and> p_children (fallbackParagraph alt url) =
        Some [Inline (TextRun (plainRun frameEmoji)),
              Inline (ExternalHyperlink [linkRun (if alt = [] then js ''Image'' else alt)] url),
              Inline (TextRun ((plainRun (js '' (could not embed)''))
                 \<lparr>size_r := 20, color := Some ''999999''\<rparr>))]"
proof -
  have img: "\<exists>st'. convertStep toLowerCase net (ImageTok url title alt) st = Inr st'
           \<and> children st' = children st @ [fallbackParagraph alt url]"
    if f: "fst (fetchImage toLowerCase net (requests st) url) = Inr None"
  proof -
    let ?st = "(spacingStep (ImageTok url title alt) st)\<lparr>consecutiveBreaks := 0\<rparr>"
    have "fst (fetchImage toLowerCase net (requests ?st) url) = Inr None"
      using f by (simp add: requests_spacingStep)
    from imageStep_fallback[OF this] obtain st' where
      "imageStep toLowerCase net url
         (orElse (case title of None \<Rightarrow> [] | Some t \<Rightarrow> t) (orElse alt (js ''Image''))) alt ?st
       = Inr st'" "children st' = children ?st @ [fallbackParagraph alt url]" by blast
    then show ?thesis
      by (simp add: convertStep_def children_spacingStep)
  qed
  have par: "\<exists>st'. convertStep toLowerCase net (ParagraphTok tx) st = Inr st'
           \<and> children st' = children st @ [fallbackParagraph alt url]"
    if m: "imageMatch tx = Some (alt, url)"
      and f: "fst (fetchImage toLowerCase net (requests st) url) = Inr None"
  proof -
    let ?st = "(spacingStep (ParagraphTok tx) st)\<lparr>consecutiveBreaks := 0\<rparr>"
    have "fst (fetchImage toLowerCase net (requests ?st) url) = Inr None"
      using f by (simp add: requests_spacingStep)
    from imageStep_fallback[OF this] obtain st' where
      "imageStep toLowerCase net url (orElse alt (js ''Image'')) alt ?st = Inr st'"
      "children st' = children ?st @ [fallbackParagraph alt url]" by blast
    with m show ?thesis
      by (simp add: convertStep_def children_spacingStep)
  qed
  have fb: "p_children (fallbackParagraph alt url) =
        Some [Inline (TextRun (plainRun frameEmoji)),
              Inline (ExternalHyperlink [linkRun (if alt = [] then js ''Image'' else alt)] url),
              Inline (TextRun ((plainRun (js '' (could not embed)''))
                 \<lparr>size_r := 20, color := Some ''999999''\<rparr>))]"
    by (simp add: fallbackParagraph_def orElse_def emptyParagraph_def)
  have im: "ch CHR '']'' \<notin> set alt \<and> url \<noteq> [] \<and> ch CHR '')'' \<notin> set url \<longrightarrow>
        imageMatch (js ''!['' @ alt @ js '']('' @ url @ js '')'') = Some (alt, url)"
    using imageMatch_found[of alt url] by blast
  from fetchImage_never_raises[of toLowerCase net rq url]
    fetchImage_failures[of toLowerCase url net rq response] img par fb im
  show ?thesis by blast
qed

theorem image_fallback_witness:
  "fetchImage toLowerCaseAscii (\<lambda>rq u. None) [] (js ''http://h/logo.svg'') = (Inr None, [])
   \<and> fetchImage toLowerCaseAscii (\<lambda>rq u. None) [] (js ''http://h/cat.png'')
       = (Inr None, [js ''http://h/cat.png''])
   \<and> fetchImage toLowerCaseAscii
         (\<lambda>rq u. Some \<lparr>ok = False, contentTypeHeader = None, arrayBuffer = Some []\<rparr>) []
         (js ''http://h/cat.png'')
       = (Inr None, [js ''http://h/cat.png''])
   \<and> (\<exists>st'. convertStep toLowerCaseAscii (\<lambda>rq u. None)
                (ImageTok (js ''http://h/cat.png'') None (js ''cat'')) initialState = Inr st'
           \<and> children st' = [fallbackParagraph (js ''cat'') (js ''http://h/cat.png'')])
   \<and> (\<exists>st'. convertStep toLowerCaseAscii (\<lambda>rq u. None)
                (ParagraphTok (js ''![cat](http://h/cat.png)'')) initialState = Inr st'
           \<and> children st' = [fallbackParagraph (js ''cat'') (js ''http://h/cat.png'')])"
proof -
  let ?none = "\<lambda>(rq :: jsstring list) (u :: jsstring). (None :: response option)"
  let ?bad = "\<lparr>ok = False, contentTypeHeader = None, arrayBuffer = Some []\<rparr>"
  let ?notok = "\<lambda>(rq :: jsstring list) (u :: jsstring). Some ?bad"
  have svg: "includes_str (toLowerCaseAscii (js ''http://h/logo.svg'')) (js ''.svg'')"
    by code_simp
  have nosvg: "\<not> includes_str (toLowerCaseAscii (js ''http://h/cat.png'')) (js ''.svg'')"
    by code_simp
  have m: "imageMatch (js ''![cat](http://h/cat.png)'') = Some (js ''cat'', js ''http://h/cat.png'')"
    by code_simp
  have f: "fst (fetchImage toLowerCaseAscii ?none (requests initialState) (js ''http://h/cat.png''))
             = Inr None"
    using nosvg by (simp add: fetchImage_def fetchImageTry_def initialState_def)
  from image_fallback[of toLowerCaseAscii ?none "[]" "js ''http://h/logo.svg''"] svg
  have 1: "fetchImage toLowerCaseAscii ?none [] (js ''http://h/logo.svg'') = (Inr None, [])"
    by blast
  from image_fallback[of toLowerCaseAscii ?none "[]" "js ''http://h/cat.png''" _ initialState
      None "js ''cat''" "js ''![cat](http://h/cat.png)''"] nosvg m f
  have 2: "fetchImage toLowerCaseAscii ?none [] (js ''http://h/cat.png'')
             = (Inr None, [] @ [js ''http://h/cat.png''])"
    and 4: "\<exists>st'. convertStep toLowerCaseAscii ?none
                (ImageTok (js ''http://h/cat.png'') None (js ''cat'')) initialState = Inr st'
           \<and> children st' = children initialState
                @ [fallbackParagraph (js ''cat'') (js ''http://h/cat.png'')]"
    and 5: "\<exists>st'. convertStep toLowerCaseAscii ?none
                (ParagraphTok (js ''![cat](http://h/cat.png)'')) initialState = Inr st'
           \<and> children st' = children initialState
                @ [fallbackParagraph (js ''cat'') (js ''http://h/cat.png'')]"
    by blast+
  from image_fallback[of toLowerCaseAscii ?notok "[]" "js ''http://h/cat.png''" ?bad] nosvg
  have 3: "fetchImage toLowerCaseAscii ?notok [] (js ''http://h/cat.png'')
             = (Inr None, [] @ [js ''http://h/cat.png''])"
    by simp
  from 1 2 3 4 5 show ?thesis by (simp add: initialState_def)
qed

text \<open>
  C3 as stated fails for an image without alternative text: the hyperlink of the
  fallback paragraph then shows \<open>Image\<close>, not the (empty) original text.
\<close>

theorem image_fallback_empty_alt_counterexample:
  "convertStep toLowerCaseAscii (\<lambda>rq u. None) (ImageTok (js ''http://h/cat.png'') None [])
       initialState
     = Inr \<lparr>children = [fallbackParagraph [] (js ''http://h/cat.png'')],
            lastTokenType = Some ''image'', consecutiveBreaks = 0,
            requests = [js ''http://h/cat.png'']\<rparr>
   \<and> p_children (fallbackParagraph [] (js ''http://h/cat.png'')) =
        Some [Inline (TextRun (plainRun frameEmoji)),
              Inline (ExternalHyperlink [linkRun (js ''Image'')] (js ''http://h/cat.png'')),
              Inline (TextRun ((plainRun (js '' (could not embed)''))
                 \<lparr>size_r := 20, color := Some ''999999''\<rparr>))]
   \<and> text_r (linkRun (js ''Image'')) \<noteq> []"
proof -
  have nosvg: "\<not> includes_str (toLowerCaseAscii (js ''http://h/cat.png'')) (js ''.svg'')"
    by code_simp
  then have "convertStep toLowerCaseAscii (\<lambda>rq u. None) (ImageTok (js ''http://h/cat.png'') None [])
       initialState
     = Inr \<lparr>children = [fallbackParagraph [] (js ''http://h/cat.png'')],
            lastTokenType = Some ''image'', consecutiveBreaks = 0,
            requests = [js ''http://h/cat.png'']\<rparr>"
    by (simp add: convertStep_def spacingStep_def initialState_def imageStep_def
        fetchImage_def fetchImageTry_def push_def)
  moreover have "p_children (fallbackParagraph [] (js ''http://h/cat.png'')) =
        Some [Inline (TextRun (plainRun frameEmoji)),
              Inline (ExternalHyperlink [linkRun (js ''Image'')] (js ''http://h/cat.png'')),
              Inline (TextRun ((plainRun (js '' (could not embed)''))
                 \<lparr>size_r := 20, color := Some ''999999''\<rparr>))]"
    by (simp add: fallbackParagraph_def orElse_def emptyParagraph_def)
  moreover have "text_r (linkRun (js ''Image'')) \<noteq> []"
    by (simp add: linkRun_def js_def)
  ultimately show ?thesis by blast
qed

text \<open>
  C4. For every URL ending in an SVG suffix, \<open>fetchImage\<close> returns \<open>null\<close> at once,
  without a network request: the list of requests is unchanged. The suffix is read
  without regard to case, as the code lower-cases the URL before it looks for \<open>.svg\<close>.
\<close>

theorem fetchImage_svg_suffix:
  "endsWith (toLowerCase url) (js ''.svg'') \<Longrightarrow>
     fetchImage toLowerCase net rq url = (Inr None, rq)"
  by (simp add: fetchImage_svg endsWith_includes)

theorem fetchImage_svg_suffix_witness:
  "endsWith (toLowerCaseAscii (js ''https://example.com/Logo.SVG'')) (js ''.svg'')
   \<and> fetchImage toLowerCaseAscii (\<lambda>rq u. None) [js ''https://example.com/a.png'']
         (js ''https://example.com/Logo.SVG'')
       = (Inr None, [js ''https://example.com/a.png''])"
proof -
  have h: "endsWith (toLowerCaseAscii (js ''https://example.com/Logo.SVG'')) (js ''.svg'')"
    by code_simp
  from h fetchImage_svg_suffix[of toLowerCaseAscii "js ''https://example.com/Logo.SVG''"
      "\<lambda>rq u. None" "[js ''https://example.com/a.png'']"]
  show ?thesis by blast
qed

text \<open>
  C5. The classification is to inspect the suffix of the URL first, and the code's
  own comment calls its first step the check of the URL extension; but each test of
  that step is \<open>urlLower.includes\<close>, so an extension is found wherever it stands in
  the URL. The URL \<open>https://img.pngtree.com/a.gif\<close> ends in \<open>.gif\<close> and does not end
  in \<open>.png\<close>, its content type is \<open>image/gif\<close>, and it is classified as PNG, because
  its host name contains \<open>.png\<close>: the image that \<open>fetchImage\<close> returns for it carries
  the type PNG with GIF data.
\<close>

theorem detectImageType_gif_suffix_as_png:
  "endsWith (toLowerCaseAscii (js ''https://img.pngtree.com/a.gif'')) (js ''.gif'')
   \<and> \<not> endsWith (toLowerCaseAscii (js ''https://img.pngtree.com/a.gif'')) (js ''.png'')
   \<and> detectImageType toLowerCaseAscii (js ''https://img.pngtree.com/a.gif'') (js ''image/gif'')
       = png
   \<and> fetchImage toLowerCaseAscii
         (\<lambda>rq u. Some \<lparr>ok = True, contentTypeHeader = Some (js ''image/gif''),
                        arrayBuffer = Some [71, 73, 70]\<rparr>) []
         (js ''https://img.pngtree.com/a.gif'')
       = (Inr (Some \<lparr>img_data = [71, 73, 70], img_width = 400, img_height = 300,
                      img_type = png\<rparr>), [js ''https://img.pngtree.com/a.gif''])"
  by code_simp

text \<open>
  C6. At most one spacer is pushed per maximal run of consecutive space tokens: the
  loop never throws, and the number of spacers among the children it returns is the
  number of runs of space tokens that follow a token of non-empty type, which is at
  most the number of runs. In one pass of the loop, a space token after a token of
  another (non-empty) type increments \<open>consecutiveBreaks\<close> and pushes a spacer only
  when the incremented count is at most 1; a space token after a space token changes
  nothing; and a token of any other type leaves the count at 0, whether or not its
  type equals the previous one.
\<close>

theorem one_spacer_per_run:
  "(\<exists>st. convertTokens toLowerCase net tokens = Inr st
       \<and> spacers (children st) = precededRuns None tokens
       \<and> spacers (children st) \<le> spaceRuns False tokens)
   \<and> (lastTokenType st0 = Some ty \<and> ty \<noteq> [] \<and> ty \<noteq> ''space'' \<longrightarrow>
        (\<exists>st1. convertStep toLowerCase net SpaceTok st0 = Inr st1
           \<and> consecutiveBreaks st1 = consecutiveBreaks st0 + 1
           \<and> children st1 =
               children st0 @ (if consecutiveBreaks st0 + 1 \<le> 1 then [spacerParagraph] else [])))
   \<and> (lastTokenType st0 = Some ''space'' \<longrightarrow>
        convertStep toLowerCase net SpaceTok st0 = Inr st0)
   \<and> (tokenType token \<noteq> ''space'' \<longrightarrow>
        (\<exists>st1. convertStep toLowerCase net token st0 = Inr st1 \<and> consecutiveBreaks st1 = 0))"
proof -
  have init: "breaksInvariant initialState"
    by (simp add: breaksInvariant_def initialState_def)
  from convertLoop_spacers[OF init, of toLowerCase net tokens]
    precededRuns_le_spaceRuns[of None tokens]
  have 1: "\<exists>st. convertTokens toLowerCase net tokens = Inr st
       \<and> spacers (children st) = precededRuns None tokens
       \<and> spacers (children st) \<le> spaceRuns False tokens"
    by (auto simp: convertTokens_def initialState_def)
  have 2: "\<exists>st1. convertStep toLowerCase net SpaceTok st0 = Inr st1
           \<and> consecutiveBreaks st1 = consecutiveBreaks st0 + 1
           \<and> children st1 =
               children st0 @ (if consecutiveBreaks st0 + 1 \<le> 1 then [spacerParagraph] else [])"
    if "lastTokenType st0 = Some ty" "ty \<noteq> []" "ty \<noteq> ''space''"
    using that by (simp add: convertStep_def spacingStep_facts kindChange_def)
  have 3: "convertStep toLowerCase net SpaceTok st0 = Inr st0"
    if "lastTokenType st0 = Some ''space''"
    using that by (simp add: convertStep_def spacingStep_def)
  have 4: "\<exists>st1. convertStep toLowerCase net token st0 = Inr st1 \<and> consecutiveBreaks st1 = 0"
    if "tokenType token \<noteq> ''space''"
  proof -
    from that have "token \<noteq> SpaceTok" by auto
    with convertStep_facts[of toLowerCase net token st0] show ?thesis by auto
  qed
  from 1 2 3 4 show ?thesis by blast
qed

theorem one_spacer_per_run_witness:
  "(\<exists>st. convertTokens toLowerCaseAscii (\<lambda>rq u. None)
           [HeadingTok 1 (js ''T''), SpaceTok, SpaceTok, CodeTok (js ''x''), SpaceTok] = Inr st
       \<and> spacers (children st) = 2)
   \<and> spaceRuns False [HeadingTok 1 (js ''T''), SpaceTok, SpaceTok, CodeTok (js ''x''), SpaceTok] = 2
   \<and> (\<exists>st1. convertStep toLowerCaseAscii (\<lambda>rq u. None) SpaceTok
              (initialState\<lparr>lastTokenType := Some ''heading''\<rparr>) = Inr st1
         \<and> consecutiveBreaks st1 = 1 \<and> children st1 = [spacerParagraph])
   \<and> convertStep toLowerCaseAscii (\<lambda>rq u. None) SpaceTok
        (initialState\<lparr>lastTokenType := Some ''space'', consecutiveBreaks := 1\<rparr>)
      = Inr (initialState\<lparr>lastTokenType := Some ''space'', consecutiveBreaks := 1\<rparr>)
   \<and> (\<exists>st1. convertStep toLowerCaseAscii (\<lambda>rq u. None) HrTok
              (initialState\<lparr>lastTokenType := Some ''hr'', consecutiveBreaks := 1\<rparr>) = Inr st1
         \<and> consecutiveBreaks st1 = 0)"
proof -
  let ?net = "\<lambda>(rq :: jsstring list) (u :: jsstring). (None :: response option)"
  let ?toks = "[HeadingTok 1 (js ''T''), SpaceTok, SpaceTok, CodeTok (js ''x''), SpaceTok]"
  from one_spacer_per_run[of toLowerCaseAscii ?net ?toks
      "initialState\<lparr>lastTokenType := Some ''heading''\<rparr>" "''heading''" HrTok]
  have 1: "\<exists>st. convertTokens toLowerCaseAscii ?net ?toks = Inr st
       \<and> spacers (children st) = precededRuns None ?toks"
    and 2: "\<exists>st1. convertStep toLowerCaseAscii ?net SpaceTok
              (initialState\<lparr>lastTokenType := Some ''heading''\<rparr>) = Inr st1
         \<and> consecutiveBreaks st1
              = consecutiveBreaks (initialState\<lparr>lastTokenType := Some ''heading''\<rparr>) + 1
         \<and> children st1 =
               children (initialState\<lparr>lastTokenType := Some ''heading''\<rparr>)
               @ (if consecutiveBreaks (initialState\<lparr>lastTokenType := Some ''heading''\<rparr>) + 1 \<le> 1
                  then [spacerParagraph] else [])"
    by auto
  from one_spacer_per_run[of toLowerCaseAscii ?net ?toks
      "initialState\<lparr>lastTokenType := Some ''space'', consecutiveBreaks := 1\<rparr>" _ HrTok]
  have 3: "convertStep toLowerCaseAscii ?net SpaceTok
        (initialState\<lparr>lastTokenType := Some ''space'', consecutiveBreaks := 1\<rparr>)
      = Inr (initialState\<lparr>lastTokenType := Some ''space'', consecutiveBreaks := 1\<rparr>)"
    by simp
  from one_spacer_per_run[of toLowerCaseAscii ?net ?toks
      "initialState\<lparr>lastTokenType := Some ''hr'', consecutiveBreaks := 1\<rparr>" _ HrTok]
  have 4: "\<exists>st1. convertStep toLowerCaseAscii ?net HrTok
              (initialState\<lparr>lastTokenType := Some ''hr'', consecutiveBreaks := 1\<rparr>) = Inr st1
         \<and> consecutiveBreaks st1 = 0"
    by simp
  have 5: "precededRuns None ?toks = 2" "spaceRuns False ?toks = 2" by simp_all
  from 1 5 have a1: "\<exists>st. convertTokens toLowerCaseAscii ?net ?toks = Inr st
       \<and> spacers (children st) = 2" by (simp add: numeral_2_eq_2)
  from 2 have a2: "\<exists>st1. convertStep toLowerCaseAscii ?net SpaceTok
              (initialState\<lparr>lastTokenType := Some ''heading''\<rparr>) = Inr st1
         \<and> consecutiveBreaks st1 = 1 \<and> children st1 = [spacerParagraph]"
    by (simp add: initialState_def)
  from a1 a2 3 4 5(2) show ?thesis by blast
qed



text \<open>
  C9. For a list item with the task flag the runs begin with a checkbox run, the
  checked box U+2611 or the unchecked box U+2610 followed by a space, according to
  the item's \<open>checked\<close>, before the runs parsed from the item's text; an item without
  the flag has the parsed runs only. The paragraphs that \<open>processListItems\<close> pushes
  are, in order, those of the items of the list at every depth, each with the runs of
  its item as children. For the token of \<open>- [x] Done\<close> (a task item, checked, with the
  text \<open>Done\<close>) the children are the checked box and the plain run \<open>Done\<close>.
\<close>

theorem task_checkbox_prepended:
  "map p_children (processListItems items ordered level startNum)
     = map (\<lambda>item. Some (map Inline (itemRuns item))) (flattenItems items)
   \<and> (task \<longrightarrow>
        itemRuns (ListItem task checked tx tokens)
          = TextRun (plainRun (if checked = Some True then checkedBox else uncheckedBox))
            # processFormattedText tx)
   \<and> (\<not> task \<longrightarrow> itemRuns (ListItem task checked tx tokens) = processFormattedText tx)
   \<and> checkedBox = [0x2611, 0x20] \<and> uncheckedBox = [0x2610, 0x20]"
  by (simp add: processListItems_def listLoop_children checkedBox_def uncheckedBox_def)

theorem task_checkbox_prepended_witness:
  "map p_children
     (processListItems [ListItem True (Some True) (js ''Done'') (Some [OtherTok ''text''])]
        False 0 1)
     = [Some [Inline (TextRun (plainRun [0x2611, 0x20])),
              Inline (TextRun (plainRun (js ''Done'')))]]"
proof -
  have p: "processFormattedText (js ''Done'') = [TextRun (plainRun (js ''Done''))]"
    by code_simp
  from task_checkbox_prepended[of "[ListItem True (Some True) (js ''Done'') (Some [OtherTok ''text''])]"
      False 0 1 True "Some True" "js ''Done''" "Some [OtherTok ''text'']"]
  have "map p_children
     (processListItems [ListItem True (Some True) (js ''Done'') (Some [OtherTok ''text''])]
        False 0 1)
     = map (\<lambda>item. Some (map Inline (itemRuns item)))
         (flattenItems [ListItem True (Some True) (js ''Done'') (Some [OtherTok ''text''])])"
    and "itemRuns (ListItem True (Some True) (js ''Done'') (Some [OtherTok ''text'']))
          = TextRun (plainRun (if Some True = Some True then checkedBox else uncheckedBox))
            # processFormattedText (js ''Done'')"
    and "checkedBox = [0x2611, 0x20]"
    by blast+
  with p show ?thesis by (simp del: itemRuns.simps)
qed

text \<open>
  C10. \<open>convertMarkdownToGoogleDoc\<close> strips a code fence that wraps the whole markdown
  before it converts. For every converter and every drive client: on a string that is
  the fence \<open>```markdown\<close> and a line feed, or the fence \<open>```\<close> and a line feed, then
  an inner string, then \<open>```\<close>, the function returns what converting and uploading the
  inner string gives, so the converter is applied to the inner string and to nothing
  else; on a string that neither pair of tests accepts it returns what converting and
  uploading the string itself gives. The tests of the code (\<open>startsWith\<close> the fence
  and \<open>endsWith\<close> the closing marker) accept exactly the strings of that shape.
\<close>

theorem fence_wrapper_stripped:
  "(md = fenceMarkdown @ inner @ fenceEnd \<longrightarrow>
      convertMarkdownToGoogleDoc convert create md accessToken name
        = converted convert create inner accessToken name)
   \<and> (md = fenceGeneric @ inner @ fenceEnd \<longrightarrow>
      convertMarkdownToGoogleDoc convert create md accessToken name
        = converted convert create inner accessToken name)
   \<and> (\<not> (startsWith md fenceMarkdown \<and> endsWith md fenceEnd)
       \<and> \<not> (startsWith md fenceGeneric \<and> endsWith md fenceEnd) \<longrightarrow>
      convertMarkdownToGoogleDoc convert create md accessToken name
        = converted convert create md accessToken name)
   \<and> ((startsWith md fenceMarkdown \<and> endsWith md fenceEnd)
        \<longleftrightarrow> (\<exists>x. md = fenceMarkdown @ x @ fenceEnd))
   \<and> ((startsWith md fenceGeneric \<and> endsWith md fenceEnd)
        \<longleftrightarrow> (\<exists>x. md = fenceGeneric @ x @ fenceEnd))"
proof -
  have len: "length (p @ x @ fenceEnd) - 3 = length (p @ x @ fenceEnd) - length fenceEnd"
    for p x :: jsstring by (simp add: fenceEnd_length)
  have d: "(startsWith md fenceMarkdown \<and> endsWith md fenceEnd)
        \<longleftrightarrow> (\<exists>x. md = fenceMarkdown @ x @ fenceEnd)"
    unfolding fenceMarkdown_def by (rule fence_iff)
  have e: "(startsWith md fenceGeneric \<and> endsWith md fenceEnd)
        \<longleftrightarrow> (\<exists>x. md = fenceGeneric @ x @ fenceEnd)"
    unfolding fenceGeneric_def by (rule fence_iff)
  have a: "convertMarkdownToGoogleDoc convert create md accessToken name
        = converted convert create inner accessToken name"
    if "md = fenceMarkdown @ inner @ fenceEnd"
  proof -
    from that d have "startsWith md fenceMarkdown \<and> endsWith md fenceEnd" by blast
    then show ?thesis unfolding convertMarkdownToGoogleDoc_def converted_def Let_def that len
      by (simp only: substring_inner if_True simp_thms)
  qed
  have b: "convertMarkdownToGoogleDoc convert create md accessToken name
        = converted convert create inner accessToken name"
    if "md = fenceGeneric @ inner @ fenceEnd"
  proof -
    from that e have sw: "startsWith md fenceGeneric \<and> endsWith md fenceEnd" by blast
    then have "\<not> startsWith md fenceMarkdown" using not_both_fences by blast
    with sw show ?thesis unfolding convertMarkdownToGoogleDoc_def converted_def Let_def that len
      by (simp only: substring_inner if_True if_False simp_thms)
  qed
  have c: "convertMarkdownToGoogleDoc convert create md accessToken name
        = converted convert create md accessToken name"
    if "\<not> (startsWith md fenceMarkdown \<and> endsWith md fenceEnd)"
       "\<not> (startsWith md fenceGeneric \<and> endsWith md fenceEnd)"
    using that unfolding convertMarkdownToGoogleDoc_def converted_def Let_def
    by (simp only: if_False simp_thms)
  from a b c d e show ?thesis by blast
qed

theorem fence_wrapper_stripped_witness:
  "convertMarkdownToGoogleDoc
       (\<lambda>m. if m = js ''# Title'' then Inr [1] else Inl ''not the inner string'')
       (\<lambda>t n b. Inr (Some (js ''id'')))
       (js ''```markdown'' @ [0x0A] @ js ''# Title'' @ js ''```'') (js ''token'') (js ''Doc'')
     = Inr \<lparr>r_documentId = js ''id'', r_url = js ''https://docs.google.com/document/d/id'',
            r_status = 200, r_fileName = js ''Doc''\<rparr>
   \<and> convertMarkdownToGoogleDoc
       (\<lambda>m. if m = js ''# Title'' then Inr [1] else Inl ''not the inner string'')
       (\<lambda>t n b. Inr (Some (js ''id'')))
       (js ''```'' @ [0x0A] @ js ''# Title'' @ js ''```'') (js ''token'') (js ''Doc'')
     = Inr \<lparr>r_documentId = js ''id'', r_url = js ''https://docs.google.com/document/d/id'',
            r_status = 200, r_fileName = js ''Doc''\<rparr>
   \<and> convertMarkdownToGoogleDoc
       (\<lambda>m. if m = js ''# Title'' then Inr [1] else Inl ''not the inner string'')
       (\<lambda>t n b. Inr (Some (js ''id'')))
       (js ''# Title'') (js ''token'') (js ''Doc'')
     = Inr \<lparr>r_documentId = js ''id'', r_url = js ''https://docs.google.com/document/d/id'',
            r_status = 200, r_fileName = js ''Doc''\<rparr>
   \<and> convertMarkdownToGoogleDoc
       (\<lambda>m. if m = js ''# Title'' then Inr [1] else Inl ''not the inner string'')
       (\<lambda>t n b. Inr (Some (js ''id'')))
       (js ''```markdown'' @ [0x0A] @ js ''# Title'') (js ''token'') (js ''Doc'')
     = Inl (ConverterError ''not the inner string'')"
proof -
  let ?conv = "\<lambda>m :: jsstring.
      if m = js ''# Title'' then (Inr [1] :: string + bytes) else Inl ''not the inner string''"
  let ?create = "\<lambda>(t :: jsstring) (n :: jsstring) (b :: bytes).
      (Inr (Some (js ''id'')) :: string + jsstring option)"
  let ?ok = "Inr \<lparr>r_documentId = js ''id'',
                   r_url = js ''https://docs.google.com/document/d/id'',
                   r_status = 200, r_fileName = js ''Doc''\<rparr> :: uploadError + googleDocResponse"
  let ?open = "js ''```markdown'' @ [0x0A] @ js ''# Title''"
  have 1: "js ''```markdown'' @ [0x0A] @ js ''# Title'' @ js ''```''
             = fenceMarkdown @ js ''# Title'' @ fenceEnd"
    by (simp add: fenceMarkdown_def fenceEnd_def)
  have 2: "js ''```'' @ [0x0A] @ js ''# Title'' @ js ''```''
             = fenceGeneric @ js ''# Title'' @ fenceEnd"
    by (simp add: fenceGeneric_def fenceEnd_def)
  have 3: "\<not> (startsWith (js ''# Title'') fenceMarkdown \<and> endsWith (js ''# Title'') fenceEnd)
         \<and> \<not> (startsWith (js ''# Title'') fenceGeneric \<and> endsWith (js ''# Title'') fenceEnd)"
    by code_simp
  have 4: "\<not> (startsWith ?open fenceMarkdown \<and> endsWith ?open fenceEnd)
         \<and> \<not> (startsWith ?open fenceGeneric \<and> endsWith ?open fenceEnd)"
    by code_simp
  have ok: "converted ?conv ?create (js ''# Title'') (js ''token'') (js ''Doc'') = ?ok"
    by (simp add: converted_def js_def)
  have no: "converted ?conv ?create ?open (js ''token'') (js ''Doc'')
              = Inl (ConverterError ''not the inner string'')"
    by (simp add: converted_def js_def)
  from fence_wrapper_stripped[of "js ''```markdown'' @ [0x0A] @ js ''# Title'' @ js ''```''"
      "js ''# Title''" ?conv ?create "js ''token''" "js ''Doc''"] 1 ok
  have a: "convertMarkdownToGoogleDoc ?conv ?create
         (js ''```markdown'' @ [0x0A] @ js ''# Title'' @ js ''```'') (js ''token'') (js ''Doc'')
     = ?ok" by metis
  from fence_wrapper_stripped[of "js ''```'' @ [0x0A] @ js ''# Title'' @ js ''```''"
      "js ''# Title''" ?conv ?create "js ''token''" "js ''Doc''"] 2 ok
  have b: "convertMarkdownToGoogleDoc ?conv ?create
         (js ''```'' @ [0x0A] @ js ''# Title'' @ js ''```'') (js ''token'') (js ''Doc'')
     = ?ok" by metis
  from fence_wrapper_stripped[of "js ''# Title''" _ ?conv ?create "js ''token''" "js ''Doc''"] 3 ok
  have c: "convertMarkdownToGoogleDoc ?conv ?create (js ''# Title'') (js ''token'') (js ''Doc'')
     = ?ok" by metis
  from fence_wrapper_stripped[of ?open _ ?conv ?create "js ''token''" "js ''Doc''"] 4 no
  have d: "convertMarkdownToGoogleDoc ?conv ?create ?open (js ''token'') (js ''Doc'')
     = Inl (ConverterError ''not the inner string'')" by metis
  from a b c d show ?thesis by simp
qed

end
